theory Spec2Isabelle
  imports Main "HOL-Library.Char_ord" "HOL-Library.List_Lexorder" "HOL-Library.Product_Lexorder"
begin

section \<open>The contact manager of \<^verbatim>\<open>main.py\<close>\<close>

text \<open>
  A Python \<^verbatim>\<open>str\<close> is a sequence of code points. It is modelled as a \<^typ>\<open>string\<close>, where the
  character with number \<open>n\<close> stands for the code point \<open>U+00n\<close> (the Latin-1 range). Python
  compares strings code point by code point, which is the order of \<^typ>\<open>string\<close> here.

  A \<^verbatim>\<open>Field\<close> object (\<^verbatim>\<open>Name\<close>, \<^verbatim>\<open>Phone\<close>, \<^verbatim>\<open>Birthday\<close>) only wraps its \<^verbatim>\<open>value\<close> attribute and
  is represented by that value; the constructors below return the value they store.
\<close>

subsection \<open>Exceptions\<close>

text \<open>The exceptions the program can meet, with the message of a \<^verbatim>\<open>ValueError\<close>, which
  \<^verbatim>\<open>input_error\<close> prints.\<close>

datatype error = ValueError string | IndexError | KeyError | OverflowError

subsection \<open>Phone\<close>

text \<open>\<^verbatim>\<open>str.isdigit\<close>: true when the string is not empty and every character has the Unicode
  property \<open>Numeric_Type=Digit\<close> or \<open>Numeric_Type=Decimal\<close>. In the Latin-1 range these are
  \<open>0\<close> to \<open>9\<close> and the superscript digits \<open>U+00B2\<close>, \<open>U+00B3\<close> and \<open>U+00B9\<close>.\<close>

definition ascii_digit :: "char \<Rightarrow> bool" where
  "ascii_digit c = (CHR ''0'' \<le> c \<and> c \<le> CHR ''9'')"

definition isdigit_char :: "char \<Rightarrow> bool" where
  "isdigit_char c = (ascii_digit c \<or> c = CHR 0xB2 \<or> c = CHR 0xB3 \<or> c = CHR 0xB9)"

definition isdigit :: "string \<Rightarrow> bool" where
  "isdigit s = (s \<noteq> [] \<and> list_all isdigit_char s)"

definition Phone :: "string \<Rightarrow> error + string" where
  "Phone v =
     (if \<not> (isdigit v \<and> length v = 10)
      then Inl (ValueError ''Phone number must contain exactly 10 digits.'')
      else Inr v)"

subsection \<open>Calendar dates\<close>

text \<open>A \<^verbatim>\<open>datetime.date\<close>: the fields \<^verbatim>\<open>year\<close>, \<^verbatim>\<open>month\<close>, \<^verbatim>\<open>day\<close>. The functions below follow the
  \<^verbatim>\<open>datetime\<close> module of CPython (\<^verbatim>\<open>_is_leap\<close>, \<^verbatim>\<open>_days_before_year\<close>, \<^verbatim>\<open>_days_in_month\<close>,
  \<^verbatim>\<open>_days_before_month\<close>, \<^verbatim>\<open>_ymd2ord\<close>, \<^verbatim>\<open>_ord2ymd\<close>), which \<^verbatim>\<open>main.py\<close> calls through
  \<^verbatim>\<open>replace\<close>, the comparisons, \<^verbatim>\<open>+ timedelta(days=k)\<close>, \<^verbatim>\<open>weekday\<close> and \<^verbatim>\<open>strftime\<close>.\<close>

record date =
  year :: int
  month :: int
  day :: int

definition MAXORDINAL :: int where
  "MAXORDINAL = 3652059"

definition DAYS_IN_MONTH :: "int list" where
  "DAYS_IN_MONTH = [-1, 31, 28, 31, 30, 31, 30, 31, 31, 30, 31, 30, 31]"

definition DAYS_BEFORE_MONTH :: "int list" where
  "DAYS_BEFORE_MONTH = [-1, 0, 31, 59, 90, 120, 151, 181, 212, 243, 273, 304, 334]"

definition is_leap :: "int \<Rightarrow> bool" where
  "is_leap y = (y mod 4 = 0 \<and> (y mod 100 \<noteq> 0 \<or> y mod 400 = 0))"

definition days_before_year :: "int \<Rightarrow> int" where
  "days_before_year y' = (let y = y' - 1 in y * 365 + y div 4 - y div 100 + y div 400)"

definition days_in_month :: "int \<Rightarrow> int \<Rightarrow> int" where
  "days_in_month y m = (if m = 2 \<and> is_leap y then 29 else DAYS_IN_MONTH ! nat m)"

definition days_before_month :: "int \<Rightarrow> int \<Rightarrow> int" where
  "days_before_month y m = DAYS_BEFORE_MONTH ! nat m + (if m > 2 \<and> is_leap y then 1 else 0)"

definition ymd2ord :: "int \<Rightarrow> int \<Rightarrow> int \<Rightarrow> int" where
  "ymd2ord y m d = days_before_year y + days_before_month y m + d"

text \<open>\<^verbatim>\<open>_ord2ymd\<close>, in two parts. The second part finds the month and the day from the number
  \<open>n\<close> of days since 1 January: \<^verbatim>\<open>(n + 50) >> 5\<close> estimates the month, one too large at most.\<close>

definition month_day :: "bool \<Rightarrow> int \<Rightarrow> int \<times> int" where
  "month_day leapyear n =
     (let m = (n + 50) div 32;
          preceding = DAYS_BEFORE_MONTH ! nat m + (if m > 2 \<and> leapyear then 1 else 0)
      in if preceding > n
         then let m' = m - 1;
                  preceding' = preceding
                     - (DAYS_IN_MONTH ! nat m' + (if m' = 2 \<and> leapyear then 1 else 0))
              in (m', n - preceding' + 1)
         else (m, n - preceding + 1))"

text \<open>The first part finds the year: \<open>146097\<close>, \<open>36524\<close> and \<open>1461\<close> are the days in 400, 100
  and 4 years.\<close>

definition ord2ymd :: "int \<Rightarrow> int \<times> int \<times> int" where
  "ord2ymd n0 =
     (let n = n0 - 1;
          n400 = n div 146097; n = n mod 146097;
          y = n400 * 400 + 1;
          n100 = n div 36524; n = n mod 36524;
          n4 = n div 1461; n = n mod 1461;
          n1 = n div 365; n = n mod 365;
          y = y + n100 * 100 + n4 * 4 + n1
      in if n1 = 4 \<or> n100 = 4 then (y - 1, 12, 31)
         else
           let leapyear = (n1 = 3 \<and> (n4 \<noteq> 24 \<or> n100 = 3))
           in (case month_day leapyear n of (m, d) \<Rightarrow> (y, m, d)))"

text \<open>The constructor \<^verbatim>\<open>date(year, month, day)\<close> checks its fields. The wording of its
  messages differs between versions of CPython; the one for the day is what \<^verbatim>\<open>replace\<close>
  raises for 29 February in a common year.\<close>

definition date_new :: "int \<Rightarrow> int \<Rightarrow> int \<Rightarrow> error + date" where
  "date_new y m d =
     (if \<not> (1 \<le> y \<and> y \<le> 9999) then Inl (ValueError ''year is out of range'')
      else if \<not> (1 \<le> m \<and> m \<le> 12) then Inl (ValueError ''month must be in 1..12'')
      else if \<not> (1 \<le> d \<and> d \<le> days_in_month y m)
        then Inl (ValueError ''day is out of range for month'')
      else Inr \<lparr>year = y, month = m, day = d\<rparr>)"

definition replace_year :: "date \<Rightarrow> int \<Rightarrow> error + date" where
  "replace_year d y = date_new y (month d) (day d)"

definition toordinal :: "date \<Rightarrow> int" where
  "toordinal d = ymd2ord (year d) (month d) (day d)"

definition fromordinal :: "int \<Rightarrow> error + date" where
  "fromordinal n = (case ord2ymd n of (y, m, d) \<Rightarrow> date_new y m d)"

text \<open>\<^verbatim>\<open>d + timedelta(days=k)\<close>.\<close>

definition date_add :: "date \<Rightarrow> int \<Rightarrow> error + date" where
  "date_add d k =
     (let n = toordinal d + k
      in if 0 < n \<and> n \<le> MAXORDINAL then fromordinal n else Inl OverflowError)"

text \<open>Dates compare as the tuples \<^verbatim>\<open>(year, month, day)\<close>.\<close>

definition date_key :: "date \<Rightarrow> int \<times> int \<times> int" where
  "date_key d = (year d, month d, day d)"

definition date_lt :: "date \<Rightarrow> date \<Rightarrow> bool" where
  "date_lt a b = (date_key a < date_key b)"

definition date_le :: "date \<Rightarrow> date \<Rightarrow> bool" where
  "date_le a b = (date_key a \<le> date_key b)"

text \<open>\<^verbatim>\<open>weekday()\<close>: Monday is 0, Saturday 5, Sunday 6.\<close>

definition weekday :: "date \<Rightarrow> int" where
  "weekday d = (toordinal d + 6) mod 7"

subsection \<open>Formatting dates\<close>

fun decimal :: "nat \<Rightarrow> string" where
  "decimal n = (if n < 10 then [char_of (48 + n)] else decimal (n div 10) @ [char_of (48 + n mod 10)])"

definition zfill :: "nat \<Rightarrow> string \<Rightarrow> string" where
  "zfill w s = replicate (w - length s) CHR ''0'' @ s"

text \<open>\<^verbatim>\<open>%d\<close> and \<^verbatim>\<open>%m\<close> print two digits. \<^verbatim>\<open>%Y\<close> is passed to the C library: for a year below
  1000 some platforms print four digits (\<open>0999\<close>) and others the bare number (\<open>999\<close>). The
  flag \<open>pad\<close> says which platform the program runs on.\<close>

definition fmt_2d :: "int \<Rightarrow> string" where
  "fmt_2d n = zfill 2 (decimal (nat n))"

definition fmt_Y :: "bool \<Rightarrow> int \<Rightarrow> string" where
  "fmt_Y pad y = (if pad then zfill 4 (decimal (nat y)) else decimal (nat y))"

text \<open>\<^verbatim>\<open>strftime("%d.%m.%Y")\<close> and \<^verbatim>\<open>strftime("%Y.%m.%d")\<close>.\<close>

definition strftime_dmY :: "bool \<Rightarrow> date \<Rightarrow> string" where
  "strftime_dmY pad d = fmt_2d (day d) @ ''.'' @ fmt_2d (month d) @ ''.'' @ fmt_Y pad (year d)"

definition strftime_Ymd :: "bool \<Rightarrow> date \<Rightarrow> string" where
  "strftime_Ymd pad d = fmt_Y pad (year d) @ ''.'' @ fmt_2d (month d) @ ''.'' @ fmt_2d (day d)"

subsection \<open>Birthday\<close>

text \<open>\<^verbatim>\<open>datetime.strptime(value, "%d.%m.%Y")\<close> turns the format into the regular expression
  \<^verbatim>\<open>(3[0-1]|[1-2]\d|0[1-9]|[1-9]| [1-9])\.(1[0-2]|0[1-9]|[1-9])\.(\d\d\d\d)\<close>
  and matches it at the start of the string, trying the alternatives from left to right and
  going back to the next alternative when the rest does not match. Each function below
  returns the ways of matching one part, as pairs of the text matched and the text left,
  in the order in which the matcher tries them.\<close>

definition in_range :: "char \<Rightarrow> char \<Rightarrow> char \<Rightarrow> bool" where
  "in_range lo hi c = (lo \<le> c \<and> c \<le> hi)"

fun one :: "(char \<Rightarrow> bool) \<Rightarrow> string \<Rightarrow> (string \<times> string) list" where
  "one p (a # r) = (if p a then [([a], r)] else [])"
| "one p [] = []"

fun two :: "(char \<Rightarrow> bool) \<Rightarrow> (char \<Rightarrow> bool) \<Rightarrow> string \<Rightarrow> (string \<times> string) list" where
  "two p q (a # b # r) = (if p a \<and> q b then [([a, b], r)] else [])"
| "two p q r = []"

definition re_d :: "string \<Rightarrow> (string \<times> string) list" where
  "re_d s = two ((=) CHR ''3'') (in_range CHR ''0'' CHR ''1'') s
     @ two (in_range CHR ''1'' CHR ''2'') ascii_digit s
     @ two ((=) CHR ''0'') (in_range CHR ''1'' CHR ''9'') s
     @ one (in_range CHR ''1'' CHR ''9'') s
     @ two ((=) CHR '' '') (in_range CHR ''1'' CHR ''9'') s"

definition re_m :: "string \<Rightarrow> (string \<times> string) list" where
  "re_m s = two ((=) CHR ''1'') (in_range CHR ''0'' CHR ''2'') s
     @ two ((=) CHR ''0'') (in_range CHR ''1'' CHR ''9'') s
     @ one (in_range CHR ''1'' CHR ''9'') s"

fun re_Y :: "string \<Rightarrow> (string \<times> string) list" where
  "re_Y (a # b # c # d # r) =
     (if ascii_digit a \<and> ascii_digit b \<and> ascii_digit c \<and> ascii_digit d
      then [([a, b, c, d], r)] else [])"
| "re_Y r = []"

fun re_dot :: "string \<Rightarrow> string list" where
  "re_dot (a # r) = (if a = CHR ''.'' then [r] else [])"
| "re_dot [] = []"

text \<open>The groups \<open>d\<close>, \<open>m\<close>, \<open>Y\<close> of the first match, and the text after it.\<close>

definition format_regex_match :: "string \<Rightarrow> (string \<times> string \<times> string \<times> string) option" where
  "format_regex_match s =
     (case [(d, m, y, r5). (d, r1) \<leftarrow> re_d s, r2 \<leftarrow> re_dot r1, (m, r3) \<leftarrow> re_m r2,
              r4 \<leftarrow> re_dot r3, (y, r5) \<leftarrow> re_Y r4] of
        [] \<Rightarrow> None
      | found # _ \<Rightarrow> Some found)"

text \<open>\<^verbatim>\<open>int\<close> on a group: decimal digits, after a blank that the day may start with.\<close>

definition py_int :: "string \<Rightarrow> int" where
  "py_int s = foldl (\<lambda>a c. 10 * a + (int (of_char c) - 48)) 0
     (dropWhile (\<lambda>c. c = CHR '' '') s)"

text \<open>\<^verbatim>\<open>_strptime\<close> raises \<^verbatim>\<open>ValueError\<close> when the expression does not match, when text is left
  after the match, and when \<^verbatim>\<open>date(year, month, day)\<close> refuses the numbers. \<^verbatim>\<open>Birthday\<close> drops
  the message of each.\<close>

definition strptime :: "string \<Rightarrow> error + date" where
  "strptime data_string =
     (case format_regex_match data_string of
        None \<Rightarrow> Inl (ValueError ''time data does not match format'')
      | Some (d, m, y, rest) \<Rightarrow>
          if rest \<noteq> [] then Inl (ValueError ''unconverted data remains'')
          else date_new (py_int y) (py_int m) (py_int d))"

definition Birthday :: "string \<Rightarrow> error + date" where
  "Birthday v =
     (case strptime v of
        Inl (ValueError _) \<Rightarrow> Inl (ValueError ''Invalid date format. Use DD.MM.YYYY'')
      | Inl e \<Rightarrow> Inl e
      | Inr dt \<Rightarrow> Inr dt)"

text \<open>\<^verbatim>\<open>Birthday.__str__\<close>.\<close>

definition Birthday_str :: "bool \<Rightarrow> date \<Rightarrow> string" where
  "Birthday_str pad b = strftime_dmY pad b"

subsection \<open>Record\<close>

text \<open>A contact. \<open>phones\<close> holds the values of the \<^verbatim>\<open>Phone\<close> objects, \<open>birthday\<close> the date of the
  \<^verbatim>\<open>Birthday\<close> object or \<open>None\<close>.\<close>

record Record =
  name :: string
  phones :: "string list"
  birthday :: "date option"

definition Record_init :: "string \<Rightarrow> Record" where
  "Record_init n = \<lparr>name = n, phones = [], birthday = None\<rparr>"

definition add_phone :: "string \<Rightarrow> Record \<Rightarrow> error + Record" where
  "add_phone phone r =
     (case Phone phone of Inl e \<Rightarrow> Inl e | Inr p \<Rightarrow> Inr (r\<lparr>phones := phones r @ [p]\<rparr>))"

text \<open>The loops of \<^verbatim>\<open>remove_phone\<close> and \<^verbatim>\<open>edit_phone\<close> over \<^verbatim>\<open>enumerate(self.phones)\<close>: they
  stop at the first phone equal to the argument.\<close>

fun remove_first :: "string \<Rightarrow> string list \<Rightarrow> string list" where
  "remove_first phone [] = []"
| "remove_first phone (p # ps) = (if p = phone then ps else p # remove_first phone ps)"

definition remove_phone :: "string \<Rightarrow> Record \<Rightarrow> Record" where
  "remove_phone phone r = r\<lparr>phones := remove_first phone (phones r)\<rparr>"

fun edit_first :: "string \<Rightarrow> string \<Rightarrow> string list \<Rightarrow> error + string list" where
  "edit_first old_phone new_phone [] = Inr []"
| "edit_first old_phone new_phone (p # ps) =
     (if p = old_phone
      then (case Phone new_phone of Inl e \<Rightarrow> Inl e | Inr q \<Rightarrow> Inr (q # ps))
      else (case edit_first old_phone new_phone ps of Inl e \<Rightarrow> Inl e | Inr ps' \<Rightarrow> Inr (p # ps')))"

definition edit_phone :: "string \<Rightarrow> string \<Rightarrow> Record \<Rightarrow> error + Record" where
  "edit_phone old_phone new_phone r =
     (case edit_first old_phone new_phone (phones r) of
        Inl e \<Rightarrow> Inl e
      | Inr ps \<Rightarrow> Inr (r\<lparr>phones := ps\<rparr>))"

fun find_phone :: "string \<Rightarrow> string list \<Rightarrow> string option" where
  "find_phone phone [] = None"
| "find_phone phone (p # ps) = (if p = phone then Some p else find_phone phone ps)"

definition Record_add_birthday :: "string \<Rightarrow> Record \<Rightarrow> error + Record" where
  "Record_add_birthday birthday_str r =
     (case Birthday birthday_str of Inl e \<Rightarrow> Inl e | Inr b \<Rightarrow> Inr (r\<lparr>birthday := Some b\<rparr>))"

subsection \<open>AddressBook\<close>

text \<open>The dictionary \<^verbatim>\<open>self.data\<close>, in insertion order: storing under a key that is present
  replaces the value in place, storing under a new key appends.\<close>

type_synonym AddressBook = "(string \<times> Record) list"

fun dict_set :: "string \<Rightarrow> Record \<Rightarrow> AddressBook \<Rightarrow> AddressBook" where
  "dict_set k v [] = [(k, v)]"
| "dict_set k v ((k', v') # kvs) = (if k' = k then (k, v) # kvs else (k', v') # dict_set k v kvs)"

definition add_record :: "Record \<Rightarrow> AddressBook \<Rightarrow> AddressBook" where
  "add_record record book = dict_set (name record) record book"

definition find_record :: "AddressBook \<Rightarrow> string \<Rightarrow> Record option" where
  "find_record book n = map_of book n"

definition delete :: "string \<Rightarrow> AddressBook \<Rightarrow> AddressBook" where
  "delete n book = (if n \<in> fst ` set book then filter (\<lambda>kv. fst kv \<noteq> n) book else book)"

text \<open>The keys of a dictionary are distinct; \<^verbatim>\<open>add_record\<close> files every record under its own
  name; a stored birthday is a date that \<^verbatim>\<open>date\<close> accepts.\<close>

definition valid_date :: "date \<Rightarrow> bool" where
  "valid_date d = (1 \<le> year d \<and> year d \<le> 9999 \<and> 1 \<le> month d \<and> month d \<le> 12
     \<and> 1 \<le> day d \<and> day d \<le> days_in_month (year d) (month d))"

definition book_ok :: "AddressBook \<Rightarrow> bool" where
  "book_ok book = (distinct (map fst book)
     \<and> list_all (\<lambda>kv. name (snd kv) = fst kv) book
     \<and> list_all (\<lambda>kv. case birthday (snd kv) of None \<Rightarrow> True | Some b \<Rightarrow> valid_date b) book)"

subsection \<open>The upcoming birthdays\<close>

text \<open>An element of the result: the dictionary with the keys \<^verbatim>\<open>"name"\<close> and
  \<^verbatim>\<open>"congratulation_date"\<close>.\<close>

record congratulation =
  cname :: string
  congratulation_date :: string

text \<open>Lines 91 to 93: the birthday moved into the year of \<open>today\<close>, and into the next year
  when that is before \<open>today\<close>. Both \<^verbatim>\<open>replace\<close> calls can raise.\<close>

definition next_occurrence :: "date \<Rightarrow> date \<Rightarrow> error + date" where
  "next_occurrence today b =
     (case replace_year b (year today) of
        Inl e \<Rightarrow> Inl e
      | Inr bday_this_year \<Rightarrow>
          if date_lt bday_this_year today
          then replace_year bday_this_year (year today + 1)
          else Inr bday_this_year)"

text \<open>Lines 95 to 100: the date moved off a weekend.\<close>

definition shift_weekend :: "date \<Rightarrow> error + date" where
  "shift_weekend bday_this_year =
     (let wd = weekday bday_this_year
      in if wd = 5 then date_add bday_this_year 2
         else if wd = 6 then date_add bday_this_year 1
         else Inr bday_this_year)"

text \<open>The loop over \<^verbatim>\<open>self.data.values()\<close>, with the list \<open>result\<close> built so far.\<close>

fun upcoming_loop ::
  "bool \<Rightarrow> date \<Rightarrow> date \<Rightarrow> Record list \<Rightarrow> congratulation list \<Rightarrow> error + congratulation list"
where
  "upcoming_loop pad today horizon [] result = Inr result"
| "upcoming_loop pad today horizon (record # records) result =
     (case birthday record of
        None \<Rightarrow> upcoming_loop pad today horizon records result
      | Some b \<Rightarrow>
          (case next_occurrence today b of
             Inl e \<Rightarrow> Inl e
           | Inr bday_this_year \<Rightarrow>
               if date_le today bday_this_year \<and> date_le bday_this_year horizon
               then (case shift_weekend bday_this_year of
                       Inl e \<Rightarrow> Inl e
                     | Inr cdate \<Rightarrow>
                         upcoming_loop pad today horizon records
                           (result @ [\<lparr>cname = name record,
                              congratulation_date = strftime_Ymd pad cdate\<rparr>]))
               else upcoming_loop pad today horizon records result))"

definition sort_key_of :: "congratulation \<Rightarrow> string \<times> string" where
  "sort_key_of d = (congratulation_date d, cname d)"

text \<open>\<^verbatim>\<open>get_upcoming_birthdays\<close>, with \<open>today\<close> (the value of \<^verbatim>\<open>datetime.today().date()\<close>) as an
  argument. \<^verbatim>\<open>list.sort\<close> is stable, as \<^const>\<open>sort_key\<close> is.\<close>

definition get_upcoming_birthdays ::
  "bool \<Rightarrow> date \<Rightarrow> AddressBook \<Rightarrow> error + congratulation list"
where
  "get_upcoming_birthdays pad today book =
     (case date_add today 7 of
        Inl e \<Rightarrow> Inl e
      | Inr horizon \<Rightarrow>
          (case upcoming_loop pad today horizon (map snd book) [] of
             Inl e \<Rightarrow> Inl e
           | Inr result \<Rightarrow> Inr (sort_key sort_key_of result)))"

subsection \<open>Command handlers\<close>

text \<open>A handler receives the words after the command and the book. It returns a message or
  raises, and it may have changed the book by then: the result is the pair of the outcome
  and the book afterwards. A record found in the book is the object stored there, so a
  method that changes it changes the book's entry for that key.\<close>

type_synonym handler = "string list \<Rightarrow> AddressBook \<Rightarrow> (error + string) \<times> AddressBook"

text \<open>The decorator \<^verbatim>\<open>input_error\<close>. It does not catch \<^verbatim>\<open>OverflowError\<close>.\<close>

definition input_error :: "handler \<Rightarrow> handler" where
  "input_error func args book =
     (case func args book of
        (Inl (ValueError e), book') \<Rightarrow>
          (Inr (if e \<noteq> [] then e else ''Give me name and phone please.''), book')
      | (Inl IndexError, book') \<Rightarrow> (Inr ''Enter user name.'', book')
      | (Inl KeyError, book') \<Rightarrow> (Inr ''Contact not found.'', book')
      | (Inl OverflowError, book') \<Rightarrow> (Inl OverflowError, book')
      | (Inr message, book') \<Rightarrow> (Inr message, book'))"

text \<open>Unpacking \<^verbatim>\<open>name, bday_str, *_ = args\<close> raises \<^verbatim>\<open>ValueError\<close> when \<open>args\<close> is too short.\<close>

fun add_birthday_func :: handler where
  "add_birthday_func (n # bday_str # _) book =
     (case find_record book n of
        None \<Rightarrow>
          (let record = Record_init n;
               book' = add_record record book
           in case Record_add_birthday bday_str record of
                Inl e \<Rightarrow> (Inl e, book')
              | Inr record' \<Rightarrow> (Inr ''Birthday set.'', dict_set n record' book'))
      | Some record \<Rightarrow>
          (case Record_add_birthday bday_str record of
             Inl e \<Rightarrow> (Inl e, book)
           | Inr record' \<Rightarrow> (Inr ''Birthday set.'', dict_set n record' book)))"
| "add_birthday_func [_] book =
     (Inl (ValueError ''not enough values to unpack (expected at least 2, got 1)''), book)"
| "add_birthday_func [] book =
     (Inl (ValueError ''not enough values to unpack (expected at least 2, got 0)''), book)"

definition add_birthday :: handler where
  "add_birthday = input_error add_birthday_func"

fun change_contact_func :: handler where
  "change_contact_func (n # old_phone # new_phone # _) book =
     (case find_record book n of
        None \<Rightarrow> (Inl KeyError, book)
      | Some record \<Rightarrow>
          (case edit_phone old_phone new_phone record of
             Inl e \<Rightarrow> (Inl e, book)
           | Inr record' \<Rightarrow> (Inr ''Contact updated.'', dict_set n record' book)))"
| "change_contact_func [_, _] book =
     (Inl (ValueError ''not enough values to unpack (expected at least 3, got 2)''), book)"
| "change_contact_func [_] book =
     (Inl (ValueError ''not enough values to unpack (expected at least 3, got 1)''), book)"
| "change_contact_func [] book =
     (Inl (ValueError ''not enough values to unpack (expected at least 3, got 0)''), book)"

definition change_contact :: handler where
  "change_contact = input_error change_contact_func"

fun join :: "string \<Rightarrow> string list \<Rightarrow> string" where
  "join sep [] = []"
| "join sep [x] = x"
| "join sep (x # y # ys) = x @ sep @ join sep (y # ys)"

fun show_phone_func :: handler where
  "show_phone_func (n # _) book =
     (case find_record book n of
        None \<Rightarrow> (Inl KeyError, book)
      | Some record \<Rightarrow>
          if phones record = [] then (Inr ''No phones.'', book)
          else (Inr (name record @ '': '' @ join ''; '' (phones record)), book))"
| "show_phone_func [] book =
     (Inl (ValueError ''not enough values to unpack (expected at least 1, got 0)''), book)"

definition show_phone :: handler where
  "show_phone = input_error show_phone_func"

fun show_birthday_func :: "bool \<Rightarrow> handler" where
  "show_birthday_func pad (n # _) book =
     (case find_record book n of
        None \<Rightarrow> (Inl KeyError, book)
      | Some record \<Rightarrow>
          (case birthday record of
             None \<Rightarrow> (Inr ''Birthday not set.'', book)
           | Some b \<Rightarrow> (Inr (name record @ '': '' @ Birthday_str pad b), book)))"
| "show_birthday_func pad [] book =
     (Inl (ValueError ''not enough values to unpack (expected at least 1, got 0)''), book)"

definition show_birthday :: "bool \<Rightarrow> handler" where
  "show_birthday pad = input_error (show_birthday_func pad)"

section \<open>Properties\<close>

subsection \<open>Record and AddressBook\<close>

lemma edit_first_absent: "old_phone \<notin> set ps \<Longrightarrow> edit_first old_phone new_phone ps = Inr ps"
  by (induction ps) auto

lemma map_of_dict_set: "map_of (dict_set k v book) = (map_of book)(k \<mapsto> v)"
  by (induction book) (auto simp: fun_eq_iff)

lemma keys_dict_set_present: "k \<in> fst ` set book \<Longrightarrow> map fst (dict_set k v book) = map fst book"
  by (induction book) force+

text \<open>
  C8. When the book already holds a contact under the name of \<open>record\<close>, \<^verbatim>\<open>add_record\<close> puts
  \<open>record\<close> in its place: looking the name up gives \<open>record\<close> itself (its phones and birthday,
  nothing of the old contact), the keys of the book and every other entry are unchanged,
  and the call cannot fail.
\<close>

theorem add_record_overwrites:
  assumes "find_record book (name record) = Some old"
  shows "find_record (add_record record book) (name record) = Some record
    \<and> map fst (add_record record book) = map fst book
    \<and> (\<forall>n. n \<noteq> name record \<longrightarrow> find_record (add_record record book) n = find_record book n)"
proof -
  from assms have "name record \<in> fst ` set book"
    by (auto simp: find_record_def dest: map_of_SomeD intro: rev_image_eqI)
  then show ?thesis
    by (simp add: find_record_def add_record_def map_of_dict_set keys_dict_set_present)
qed

theorem add_record_overwrites_witness:
  "find_record [(''Ann'', \<lparr>name = ''Ann'', phones = [''0123456789''],
       birthday = Some \<lparr>year = 1990, month = 6, day = 15\<rparr>\<rparr>)] ''Ann''
     = Some \<lparr>name = ''Ann'', phones = [''0123456789''],
         birthday = Some \<lparr>year = 1990, month = 6, day = 15\<rparr>\<rparr>
   \<and> find_record (add_record \<lparr>name = ''Ann'', phones = [], birthday = None\<rparr>
        [(''Ann'', \<lparr>name = ''Ann'', phones = [''0123456789''],
           birthday = Some \<lparr>year = 1990, month = 6, day = 15\<rparr>\<rparr>)]) ''Ann''
     = Some \<lparr>name = ''Ann'', phones = [], birthday = None\<rparr>"
  using add_record_overwrites [of
    "[(''Ann'', \<lparr>name = ''Ann'', phones = [''0123456789''],
        birthday = Some \<lparr>year = 1990, month = 6, day = 15\<rparr>\<rparr>)]"
    "\<lparr>name = ''Ann'', phones = [], birthday = None\<rparr>"
    "\<lparr>name = ''Ann'', phones = [''0123456789''],
        birthday = Some \<lparr>year = 1990, month = 6, day = 15\<rparr>\<rparr>"]
  by (simp add: find_record_def)

text \<open>
  C9. When no phone of the record equals \<open>old_phone\<close>, \<^verbatim>\<open>edit_phone\<close> returns normally and
  leaves the record as it was, whatever \<open>new_phone\<close> is: \<^verbatim>\<open>Phone(new_phone)\<close> is never built.
\<close>

theorem edit_phone_absent_noop:
  assumes "old_phone \<notin> set (phones r)"
  shows "edit_phone old_phone new_phone r = Inr r"
  using assms by (simp add: edit_phone_def edit_first_absent)

theorem edit_phone_absent_noop_witness:
  "''1111111111'' \<notin> set (phones \<lparr>name = ''Ann'', phones = [''0123456789''], birthday = None\<rparr>)
   \<and> edit_phone ''1111111111'' ''not a phone''
        \<lparr>name = ''Ann'', phones = [''0123456789''], birthday = None\<rparr>
     = Inr \<lparr>name = ''Ann'', phones = [''0123456789''], birthday = None\<rparr>"
  using edit_phone_absent_noop [of "''1111111111''"
    "\<lparr>name = ''Ann'', phones = [''0123456789''], birthday = None\<rparr>" "''not a phone''"]
  by simp

subsection \<open>The calendar\<close>

lemma month_cases:
  assumes "1 \<le> m" "m \<le> (12::int)"
  obtains "m = 1" | "m = 2" | "m = 3" | "m = 4" | "m = 5" | "m = 6"
        | "m = 7" | "m = 8" | "m = 9" | "m = 10" | "m = 11" | "m = 12"
proof -
  from assms have "m = 1 \<or> m = 2 \<or> m = 3 \<or> m = 4 \<or> m = 5 \<or> m = 6
     \<or> m = 7 \<or> m = 8 \<or> m = 9 \<or> m = 10 \<or> m = 11 \<or> m = 12" by arith
  with that show thesis by blast
qed

lemma month_day_ok:
  assumes "0 \<le> n" "n < 365 + (if leap then 1 else 0)"
  shows "case month_day leap n of (m, d) \<Rightarrow>
     1 \<le> m \<and> m \<le> 12 \<and> 1 \<le> d
     \<and> d \<le> (if m = 2 \<and> leap then 29 else DAYS_IN_MONTH ! nat m)
     \<and> DAYS_BEFORE_MONTH ! nat m + (if m > 2 \<and> leap then 1 else 0) + d = n + 1"
proof -
  define m where "m = (n + 50) div 32"
  have "1 \<le> m" "m \<le> 12" using assms unfolding m_def by (auto split: if_splits)
  then show ?thesis
  proof (cases m rule: month_cases)
    case 1
    then have "0 \<le> n" "n < 14" using assms(1) unfolding m_def by arith+
    with 1 assms show ?thesis unfolding month_day_def m_def[symmetric] Let_def
      by (simp add: DAYS_IN_MONTH_def DAYS_BEFORE_MONTH_def)
  next
    case 2
    then have "14 \<le> n" "n < 46" using assms(1) unfolding m_def by arith+
    with 2 assms show ?thesis unfolding month_day_def m_def[symmetric] Let_def
      by (simp add: DAYS_IN_MONTH_def DAYS_BEFORE_MONTH_def)
  next
    case 3
    then have "46 \<le> n" "n < 78" using assms(1) unfolding m_def by arith+
    with 3 assms show ?thesis unfolding month_day_def m_def[symmetric] Let_def
      by (simp add: DAYS_IN_MONTH_def DAYS_BEFORE_MONTH_def)
  next
    case 4
    then have "78 \<le> n" "n < 110" using assms(1) unfolding m_def by arith+
    with 4 assms show ?thesis unfolding month_day_def m_def[symmetric] Let_def
      by (simp add: DAYS_IN_MONTH_def DAYS_BEFORE_MONTH_def)
  next
    case 5
    then have "110 \<le> n" "n < 142" using assms(1) unfolding m_def by arith+
    with 5 assms show ?thesis unfolding month_day_def m_def[symmetric] Let_def
      by (simp add: DAYS_IN_MONTH_def DAYS_BEFORE_MONTH_def)
  next
    case 6
    then have "142 \<le> n" "n < 174" using assms(1) unfolding m_def by arith+
    with 6 assms show ?thesis unfolding month_day_def m_def[symmetric] Let_def
      by (simp add: DAYS_IN_MONTH_def DAYS_BEFORE_MONTH_def)
  next
    case 7
    then have "174 \<le> n" "n < 206" using assms(1) unfolding m_def by arith+
    with 7 assms show ?thesis unfolding month_day_def m_def[symmetric] Let_def
      by (simp add: DAYS_IN_MONTH_def DAYS_BEFORE_MONTH_def)
  next
    case 8
    then have "206 \<le> n" "n < 238" using assms(1) unfolding m_def by arith+
    with 8 assms show ?thesis unfolding month_day_def m_def[symmetric] Let_def
      by (simp add: DAYS_IN_MONTH_def DAYS_BEFORE_MONTH_def)
  next
    case 9
    then have "238 \<le> n" "n < 270" using assms(1) unfolding m_def by arith+
    with 9 assms show ?thesis unfolding month_day_def m_def[symmetric] Let_def
      by (simp add: DAYS_IN_MONTH_def DAYS_BEFORE_MONTH_def)
  next
    case 10
    then have "270 \<le> n" "n < 302" using assms(1) unfolding m_def by arith+
    with 10 assms show ?thesis unfolding month_day_def m_def[symmetric] Let_def
      by (simp add: DAYS_IN_MONTH_def DAYS_BEFORE_MONTH_def)
  next
    case 11
    then have "302 \<le> n" "n < 334" using assms(1) unfolding m_def by arith+
    with 11 assms show ?thesis unfolding month_day_def m_def[symmetric] Let_def
      by (simp add: DAYS_IN_MONTH_def DAYS_BEFORE_MONTH_def)
  next
    case 12
    then have "334 \<le> n" "n < 366" using assms(1) unfolding m_def by arith+
    with 12 assms show ?thesis unfolding month_day_def m_def[symmetric] Let_def
      by (simp add: DAYS_IN_MONTH_def DAYS_BEFORE_MONTH_def)
  qed
qed

lemma dby_decomp:
  assumes "0 \<le> n100" "n100 \<le> 3" "0 \<le> n4" "n4 \<le> 24" "0 \<le> n1" "n1 \<le> 3"
  shows "days_before_year (400 * n400 + 100 * n100 + 4 * n4 + n1 + 1)
       = 146097 * n400 + 36524 * n100 + 1461 * n4 + 365 * n1"
proof -
  let ?y = "400 * n400 + 100 * n100 + 4 * n4 + n1"
  have a: "?y div 4 = 100 * n400 + 25 * n100 + n4" using assms by arith
  have b: "?y div 100 = 4 * n400 + n100" using assms by arith
  have c: "?y div 400 = n400" using assms by arith
  show ?thesis unfolding days_before_year_def Let_def
    using a b c by simp
qed

lemma mod_zero_in_range: "0 < x \<Longrightarrow> x \<le> k \<Longrightarrow> x mod k = 0 \<longleftrightarrow> x = k" for x k :: int
  by (cases "x = k") auto

lemma is_leap_decomp:
  assumes "0 \<le> n100" "n100 \<le> 3" "0 \<le> n4" "n4 \<le> 24" "0 \<le> n1" "n1 \<le> 3"
  shows "is_leap (400 * n400 + 100 * n100 + 4 * n4 + n1 + 1)
       \<longleftrightarrow> (n1 = 3 \<and> (n4 \<noteq> 24 \<or> n100 = 3))"
proof -
  let ?y = "400 * n400 + 100 * n100 + 4 * n4 + n1 + 1"
  have "?y = 4 * (100 * n400 + 25 * n100 + n4) + (n1 + 1)" by simp
  then have "?y mod 4 = (n1 + 1) mod 4" by (simp only: mod_mult_self4)
  moreover have "(n1 + 1) mod 4 = 0 \<longleftrightarrow> n1 + 1 = 4"
    using assms by (intro mod_zero_in_range) simp_all
  ultimately have a: "?y mod 4 = 0 \<longleftrightarrow> n1 = 3" by simp
  have "?y = 100 * (4 * n400 + n100) + (4 * n4 + n1 + 1)" by simp
  then have "?y mod 100 = (4 * n4 + n1 + 1) mod 100" by (simp only: mod_mult_self4)
  moreover have "(4 * n4 + n1 + 1) mod 100 = 0 \<longleftrightarrow> 4 * n4 + n1 + 1 = 100"
    using assms by (intro mod_zero_in_range) simp_all
  moreover have "4 * n4 + n1 + 1 = 100 \<longleftrightarrow> n1 = 3 \<and> n4 = 24" using assms by linarith
  ultimately have b: "?y mod 100 = 0 \<longleftrightarrow> n1 = 3 \<and> n4 = 24" by simp
  have "?y = 400 * n400 + (100 * n100 + 4 * n4 + n1 + 1)" by simp
  then have "?y mod 400 = (100 * n100 + 4 * n4 + n1 + 1) mod 400" by (simp only: mod_mult_self4)
  moreover have "(100 * n100 + 4 * n4 + n1 + 1) mod 400 = 0 \<longleftrightarrow> 100 * n100 + 4 * n4 + n1 + 1 = 400"
    using assms by (intro mod_zero_in_range) simp_all
  moreover have "100 * n100 + 4 * n4 + n1 + 1 = 400 \<longleftrightarrow> n1 = 3 \<and> n4 = 24 \<and> n100 = 3"
    using assms by linarith
  ultimately have c: "?y mod 400 = 0 \<longleftrightarrow> n1 = 3 \<and> n4 = 24 \<and> n100 = 3" by simp
  show ?thesis unfolding is_leap_def a b c by blast
qed

lemma ord2ymd_ok:
  assumes "1 \<le> n" "n \<le> MAXORDINAL"
  shows "case ord2ymd n of (y, m, d) \<Rightarrow>
     1 \<le> y \<and> y \<le> 9999 \<and> 1 \<le> m \<and> m \<le> 12 \<and> 1 \<le> d \<and> d \<le> days_in_month y m
     \<and> ymd2ord y m d = n"
proof -
  define n400 where "n400 = (n - 1) div 146097"
  define r400 where "r400 = (n - 1) mod 146097"
  define n100 where "n100 = r400 div 36524"
  define r100 where "r100 = r400 mod 36524"
  define n4 where "n4 = r100 div 1461"
  define r4 where "r4 = r100 mod 1461"
  define n1 where "n1 = r4 div 365"
  define r1 where "r1 = r4 mod 365"
  note defs = n400_def r400_def n100_def r100_def n4_def r4_def n1_def r1_def
  have n400: "0 \<le> n400" "n400 \<le> 24" using assms unfolding n400_def MAXORDINAL_def by arith+
  have r400: "0 \<le> r400" "r400 < 146097" unfolding r400_def by simp_all
  have n100: "0 \<le> n100" "n100 \<le> 4" using r400 unfolding n100_def by arith+
  have r100: "0 \<le> r100" "r100 < 36524" unfolding r100_def by simp_all
  have n4: "0 \<le> n4" "n4 \<le> 24" using r100 unfolding n4_def by arith+
  have r4: "0 \<le> r4" "r4 < 1461" unfolding r4_def by simp_all
  have n1: "0 \<le> n1" "n1 \<le> 4" using r4 unfolding n1_def by arith+
  have r1: "0 \<le> r1" "r1 < 365" unfolding r1_def by simp_all
  have e400: "n - 1 = 146097 * n400 + r400" unfolding n400_def r400_def by simp
  have e100: "r400 = 36524 * n100 + r100" unfolding n100_def r100_def by simp
  have e4: "r100 = 1461 * n4 + r4" unfolding n4_def r4_def by simp
  have e1: "r4 = 365 * n1 + r1" unfolding n1_def r1_def by simp
  have unf: "ord2ymd n =
     (if n1 = 4 \<or> n100 = 4 then (n400 * 400 + 1 + n100 * 100 + n4 * 4 + n1 - 1, 12, 31)
      else case month_day (n1 = 3 \<and> (n4 \<noteq> 24 \<or> n100 = 3)) r1 of
             (m, d) \<Rightarrow> (n400 * 400 + 1 + n100 * 100 + n4 * 4 + n1, m, d))"
    unfolding ord2ymd_def Let_def defs by simp
  have dec31: "ymd2ord y 12 31 = days_before_year y + 366 \<and> days_in_month y 12 = 31"
    if "is_leap y" for y
    using that by (simp add: ymd2ord_def days_before_month_def days_in_month_def
        DAYS_BEFORE_MONTH_def DAYS_IN_MONTH_def)
  consider (century) "n100 = 4" | (year4) "n100 \<le> 3" "n1 = 4" | (normal) "n100 \<le> 3" "n1 \<le> 3"
    using n100 n1 by linarith
  then show ?thesis
  proof cases
    case century
    then have v: "r100 = 0" "n4 = 0" "r4 = 0" "n1 = 0" "r1 = 0" "r400 = 146096"
      using r400 e100 r100 e4 r4 e1 r1 n4 n1 by auto
    have "n400 \<le> 23" using assms(2) e400 v unfolding MAXORDINAL_def by arith
    have y: "n400 * 400 + 1 + n100 * 100 + n4 * 4 + n1 - 1 = 400 * n400 + 100 * 3 + 4 * 24 + 3 + 1"
      using century v by simp
    have "is_leap (400 * n400 + 100 * 3 + 4 * 24 + 3 + 1)"
      by (subst is_leap_decomp) simp_all
    moreover have "days_before_year (400 * n400 + 100 * 3 + 4 * 24 + 3 + 1) = 146097 * n400 + 145731"
      by (subst dby_decomp) simp_all
    ultimately show ?thesis
      using century v e400 n400 \<open>n400 \<le> 23\<close> unfolding unf y by (simp add: dec31)
  next
    case year4
    then have v: "r1 = 0" "r4 = 1460" using e1 r4 r1 by auto
    have "n4 \<le> 23" using e4 r100 v n4 by arith
    have y: "n400 * 400 + 1 + n100 * 100 + n4 * 4 + n1 - 1 = 400 * n400 + 100 * n100 + 4 * n4 + 3 + 1"
      using year4 by simp
    have "is_leap (400 * n400 + 100 * n100 + 4 * n4 + 3 + 1)"
      using n100 year4 n4 \<open>n4 \<le> 23\<close> by (subst is_leap_decomp) simp_all
    moreover have "days_before_year (400 * n400 + 100 * n100 + 4 * n4 + 3 + 1)
        = 146097 * n400 + 36524 * n100 + 1461 * n4 + 1095"
      using n100 year4 n4 by (subst dby_decomp) simp_all
    ultimately show ?thesis
      using year4 v e400 e100 e4 n400 n100 n4 \<open>n4 \<le> 23\<close> unfolding unf y by (simp add: dec31)
  next
    case normal
    define L where "L = (n1 = 3 \<and> (n4 \<noteq> 24 \<or> n100 = 3))"
    define y where "y = 400 * n400 + 100 * n100 + 4 * n4 + n1 + 1"
    obtain m d where md: "month_day L r1 = (m, d)" by (cases "month_day L r1")
    have "r1 < 365 + (if L then 1 else 0)" using r1 by simp
    from month_day_ok [OF r1(1) this] md
    have mdf: "1 \<le> m" "m \<le> 12" "1 \<le> d"
      "d \<le> (if m = 2 \<and> L then 29 else DAYS_IN_MONTH ! nat m)"
      "DAYS_BEFORE_MONTH ! nat m + (if m > 2 \<and> L then 1 else 0) + d = r1 + 1"
      by simp_all
    have leap: "is_leap y = L" unfolding y_def L_def
      using n100 normal n4 n1 by (subst is_leap_decomp) simp_all
    have dby: "days_before_year y = 146097 * n400 + 36524 * n100 + 1461 * n4 + 365 * n1"
      unfolding y_def using n100 normal n4 n1 by (subst dby_decomp) simp_all
    have "y \<le> 9999"
      using assms(2) e400 e100 e4 e1 n400 n100 n4 n1 r1 normal unfolding y_def MAXORDINAL_def
      by arith
    moreover have "1 \<le> y" using n400 n100 n4 n1 unfolding y_def by arith
    moreover have "ymd2ord y m d = n"
      using mdf(5) dby e400 e100 e4 e1 unfolding ymd2ord_def days_before_month_def leap by simp
    moreover have "d \<le> days_in_month y m" using mdf(4) unfolding days_in_month_def leap by simp
    moreover have "ord2ymd n = (y, m, d)"
      using normal md unfolding unf L_def y_def by (simp add: algebra_simps)
    ultimately show ?thesis using mdf by simp
  qed
qed

lemma date_new_Inr:
  "date_new y m d = Inr x \<longleftrightarrow>
     1 \<le> y \<and> y \<le> 9999 \<and> 1 \<le> m \<and> m \<le> 12 \<and> 1 \<le> d \<and> d \<le> days_in_month y m
     \<and> x = \<lparr>year = y, month = m, day = d\<rparr>"
  by (auto simp: date_new_def)

lemma date_new_valid: "date_new y m d = Inr x \<Longrightarrow> valid_date x"
  by (auto simp: date_new_Inr valid_date_def)

lemma fromordinal_ok:
  assumes "1 \<le> n" "n \<le> MAXORDINAL"
  shows "\<exists>d. fromordinal n = Inr d \<and> valid_date d \<and> toordinal d = n"
proof -
  obtain y m d where o: "ord2ymd n = (y, m, d)" by (cases "ord2ymd n")
  with ord2ymd_ok [OF assms] show ?thesis
    by (simp add: fromordinal_def date_new_def valid_date_def toordinal_def)
qed

lemma date_add_Inr:
  assumes "date_add d k = Inr d'"
  shows "valid_date d' \<and> toordinal d' = toordinal d + k"
proof -
  from assms have r: "0 < toordinal d + k" "toordinal d + k \<le> MAXORDINAL"
    and f: "fromordinal (toordinal d + k) = Inr d'"
    by (auto simp: date_add_def Let_def split: if_splits)
  from fromordinal_ok [of "toordinal d + k"] r f show ?thesis by auto
qed

lemma date_add_ok:
  assumes "0 < toordinal d + k" "toordinal d + k \<le> MAXORDINAL"
  shows "\<exists>d'. date_add d k = Inr d'"
  using fromordinal_ok [of "toordinal d + k"] assms by (auto simp: date_add_def Let_def)

lemma div_step:
  fixes y k :: int
  assumes "0 < k"
  shows "y div k = (y - 1) div k + (if y mod k = 0 then 1 else 0)"
proof -
  define q where "q = (y - 1) div k"
  define s where "s = (y - 1) mod k + 1"
  have "0 \<le> (y - 1) mod k" "(y - 1) mod k < k" using assms by simp_all
  then have s: "0 < s" "s \<le> k" unfolding s_def by linarith+
  have y: "y = k * q + s" unfolding q_def s_def by simp
  have d: "y div k = q + s div k" and m: "y mod k = s mod k"
    unfolding y using assms by simp_all
  show ?thesis
  proof (cases "s = k")
    case True
    with d m assms show ?thesis by (simp add: q_def)
  next
    case False
    with s have "s < k" by simp
    with s have "s div k = 0" "s mod k = s" by simp_all
    with d m s show ?thesis by (simp add: q_def)
  qed
qed

lemma dby_Suc:
  "days_before_year (y + 1) = days_before_year y + 365 + (if is_leap y then 1 else 0)"
proof -
  have a: "y div 4 = (y - 1) div 4 + (if y mod 4 = 0 then 1 else 0)" by (rule div_step) simp
  have b: "y div 100 = (y - 1) div 100 + (if y mod 100 = 0 then 1 else 0)" by (rule div_step) simp
  have c: "y div 400 = (y - 1) div 400 + (if y mod 400 = 0 then 1 else 0)" by (rule div_step) simp
  have d: "y mod 100 = 0" if "y mod 400 = 0"
  proof -
    from that have "400 dvd y" by (simp add: mod_eq_0_iff_dvd)
    moreover have "(100::int) dvd 400" by simp
    ultimately have "100 dvd y" by (rule dvd_trans [rotated])
    then show ?thesis by (simp add: mod_eq_0_iff_dvd)
  qed
  have e: "y mod 4 = 0" if "y mod 100 = 0"
  proof -
    from that have "100 dvd y" by (simp add: mod_eq_0_iff_dvd)
    moreover have "(4::int) dvd 100" by simp
    ultimately have "4 dvd y" by (rule dvd_trans [rotated])
    then show ?thesis by (simp add: mod_eq_0_iff_dvd)
  qed
  have "days_before_year (y + 1) = y * 365 + y div 4 - y div 100 + y div 400"
    by (simp add: days_before_year_def)
  also have "\<dots> = days_before_year y + 365 + (if y mod 4 = 0 then 1 else 0)
      - (if y mod 100 = 0 then 1 else 0) + (if y mod 400 = 0 then 1 else 0)"
    unfolding days_before_year_def Let_def
    by (subst a, subst b, subst c) (simp add: algebra_simps)
  also have "\<dots> = days_before_year y + 365 + (if is_leap y then 1 else 0)"
  proof (cases "y mod 400 = 0")
    case True
    note h100 = d [OF True]
    note h4 = e [OF h100]
    show ?thesis by (simp only: is_leap_def True h100 h4 simp_thms if_True)
  next
    case n400: False
    show ?thesis
    proof (cases "y mod 100 = 0")
      case True
      note h4 = e [OF True]
      show ?thesis by (simp only: is_leap_def True n400 h4 simp_thms if_True if_False)
    next
      case False
      show ?thesis by (simp only: is_leap_def False n400 simp_thms if_True if_False)
    qed
  qed
  finally show ?thesis .
qed

lemma dby_mono_strict:
  assumes "y < y'"
  shows "days_before_year y + 365 + (if is_leap y then 1 else 0) \<le> days_before_year y'"
proof -
  have "y + 1 \<le> y'" using assms by simp
  then show ?thesis
  proof (induction y' rule: int_ge_induct)
    case base
    then show ?case by (simp add: dby_Suc)
  next
    case (step i)
    have "days_before_year i \<le> days_before_year (i + 1)" by (simp add: dby_Suc)
    with step show ?case by linarith
  qed
qed

lemma dbm_Suc:
  assumes "1 \<le> m" "m \<le> 11"
  shows "days_before_month y (m + 1) = days_before_month y m + days_in_month y m"
proof -
  from assms have "1 \<le> m" "m \<le> 12" by simp_all
  then show ?thesis
    using assms(2)
    by (cases m rule: month_cases)
      (simp_all add: days_before_month_def days_in_month_def DAYS_IN_MONTH_def DAYS_BEFORE_MONTH_def)
qed

lemma dim_pos:
  assumes "1 \<le> m" "m \<le> 12"
  shows "28 \<le> days_in_month y m" "days_in_month y m \<le> 31"
  using assms
  by (cases m rule: month_cases;
      simp add: days_in_month_def DAYS_IN_MONTH_def)+

lemma dbm_mono_strict:
  assumes "1 \<le> m" "m < m'" "m' \<le> 12"
  shows "days_before_month y m + days_in_month y m \<le> days_before_month y m'"
proof -
  have "m + 1 \<le> m'" using assms by simp
  then show ?thesis using assms(3)
  proof (induction m' rule: int_ge_induct)
    case base
    with assms show ?case by (simp add: dbm_Suc)
  next
    case (step i)
    then have "days_before_month y (i + 1) = days_before_month y i + days_in_month y i"
      using assms(1) by (intro dbm_Suc) simp_all
    moreover have "28 \<le> days_in_month y i" using step assms(1) by (intro dim_pos) simp_all
    ultimately show ?case using step by simp
  qed
qed

lemma day_of_year_bounds:
  assumes "1 \<le> m" "m \<le> 12" "1 \<le> d" "d \<le> days_in_month y m"
  shows "1 \<le> days_before_month y m + d"
    and "days_before_month y m + d \<le> 365 + (if is_leap y then 1 else 0)"
  using assms
  by (cases m rule: month_cases;
      simp add: days_before_month_def days_in_month_def DAYS_IN_MONTH_def DAYS_BEFORE_MONTH_def
        split: if_splits)+

lemma date_key_less:
  "date_key a < date_key b \<longleftrightarrow>
     year a < year b \<or> (year a = year b \<and> (month a < month b
       \<or> (month a = month b \<and> day a < day b)))"
  by (auto simp: date_key_def)

lemma toordinal_less:
  assumes "valid_date a" "valid_date b" "date_key a < date_key b"
  shows "toordinal a < toordinal b"
proof -
  from assms(1) have a: "1 \<le> month a" "month a \<le> 12" "1 \<le> day a"
    "day a \<le> days_in_month (year a) (month a)" by (simp_all add: valid_date_def)
  from assms(2) have b: "1 \<le> month b" "month b \<le> 12" "1 \<le> day b"
    "day b \<le> days_in_month (year b) (month b)" by (simp_all add: valid_date_def)
  from assms(3) consider (y) "year a < year b"
    | (m) "year a = year b" "month a < month b"
    | (d) "year a = year b" "month a = month b" "day a < day b"
    by (auto simp: date_key_less)
  then show ?thesis
  proof cases
    case y
    have "days_before_month (year a) (month a) + day a
        \<le> 365 + (if is_leap (year a) then 1 else 0)"
      using a by (rule day_of_year_bounds)
    moreover have "1 \<le> days_before_month (year b) (month b) + day b"
      using b by (rule day_of_year_bounds)
    moreover note dby_mono_strict [OF y]
    ultimately show ?thesis unfolding toordinal_def ymd2ord_def by linarith
  next
    case m
    have "days_before_month (year a) (month a) + days_in_month (year a) (month a)
        \<le> days_before_month (year a) (month b)"
      using a(1) m(2) b(2) by (rule dbm_mono_strict)
    with a b m show ?thesis unfolding toordinal_def ymd2ord_def by simp
  next
    case d
    then show ?thesis unfolding toordinal_def ymd2ord_def by simp
  qed
qed

lemma date_key_eq: "date_key a = date_key b \<longleftrightarrow> a = b" for a b :: date
  by (cases a, cases b) (simp add: date_key_def)

lemma date_lt_iff:
  assumes "valid_date a" "valid_date b"
  shows "date_lt a b \<longleftrightarrow> toordinal a < toordinal b"
proof
  assume "date_lt a b"
  then show "toordinal a < toordinal b"
    using assms by (simp add: date_lt_def toordinal_less)
next
  assume l: "toordinal a < toordinal b"
  show "date_lt a b"
  proof (rule ccontr)
    assume "\<not> date_lt a b"
    then have "date_key b < date_key a \<or> date_key b = date_key a"
      by (auto simp: date_lt_def)
    then show False
    proof
      assume "date_key b < date_key a"
      from toordinal_less [OF assms(2,1) this] l show False by simp
    next
      assume "date_key b = date_key a"
      then have "b = a" by (simp add: date_key_eq)
      with l show False by simp
    qed
  qed
qed

lemma date_le_iff:
  assumes "valid_date a" "valid_date b"
  shows "date_le a b \<longleftrightarrow> toordinal a \<le> toordinal b"
proof -
  have "date_le a b \<longleftrightarrow> \<not> date_lt b a" by (auto simp: date_le_def date_lt_def)
  also have "\<dots> \<longleftrightarrow> \<not> toordinal b < toordinal a" using assms by (simp add: date_lt_iff)
  finally show ?thesis by auto
qed

lemma toordinal_inj:
  assumes "valid_date a" "valid_date b" "toordinal a = toordinal b"
  shows "a = b"
proof -
  from assms have "\<not> date_lt a b" "\<not> date_lt b a" by (simp_all add: date_lt_iff)
  then have "date_key a = date_key b" by (auto simp: date_lt_def)
  then show ?thesis by (simp add: date_key_eq)
qed

lemma dby_1: "days_before_year 1 = 0"
  by (simp add: days_before_year_def)

lemma dby_10000: "days_before_year 10000 = 3652059"
  by (simp add: days_before_year_def)

lemma toordinal_range:
  assumes "valid_date d"
  shows "1 \<le> toordinal d" "toordinal d \<le> MAXORDINAL"
proof -
  from assms have v: "1 \<le> month d" "month d \<le> 12" "1 \<le> day d"
    "day d \<le> days_in_month (year d) (month d)" and y: "1 \<le> year d" "year d \<le> 9999"
    by (simp_all add: valid_date_def)
  note doy = day_of_year_bounds [OF v]
  have "days_before_year 1 \<le> days_before_year (year d)"
  proof (cases "year d = 1")
    case False
    with y have "1 < year d" by simp
    from dby_mono_strict [OF this] show ?thesis by (simp split: if_splits)
  qed simp
  with doy(1) show "1 \<le> toordinal d" unfolding toordinal_def ymd2ord_def dby_1 by linarith
  have "year d < 10000" using y by simp
  from dby_mono_strict [OF this] doy(2)
  show "toordinal d \<le> MAXORDINAL"
    unfolding toordinal_def ymd2ord_def dby_10000 MAXORDINAL_def by linarith
qed

subsection \<open>The loop of \<^verbatim>\<open>get_upcoming_birthdays\<close>\<close>

lemma replace_year_Inr:
  assumes "replace_year b y = Inr n"
  shows "valid_date n" "year n = y" "month n = month b" "day n = day b"
  using assms by (auto simp: replace_year_def date_new_Inr valid_date_def)

lemma next_occurrence_Inr:
  assumes "next_occurrence today b = Inr n"
  shows "valid_date n" "month n = month b" "day n = day b"
    "year n = year today \<or> year n = year today + 1" "date_le today n"
proof -
  from assms obtain t where t: "replace_year b (year today) = Inr t"
    and n: "(if date_lt t today then replace_year t (year today + 1) else Inr t) = Inr n"
    by (auto simp: next_occurrence_def split: sum.splits)
  note tf = replace_year_Inr [OF t]
  show "valid_date n" "month n = month b" "day n = day b"
    "year n = year today \<or> year n = year today + 1" "date_le today n"
    using n tf by (auto simp: date_le_def date_lt_def date_key_def
        dest: replace_year_Inr split: if_splits)
qed

lemma shift_weekend_Inr:
  assumes "shift_weekend n = Inr cd" "valid_date n"
  shows "valid_date cd" "0 \<le> weekday cd" "weekday cd < 5"
    "toordinal cd = toordinal n + (if weekday n = 5 then 2 else if weekday n = 6 then 1 else 0)"
    "date_le n cd"
proof -
  have wd: "0 \<le> weekday n" "weekday n < 7" by (simp_all add: weekday_def)
  consider (sat) "weekday n = 5" "date_add n 2 = Inr cd"
    | (sun) "weekday n = 6" "date_add n 1 = Inr cd"
    | (wk) "weekday n < 5" "cd = n"
    using assms(1) wd by (auto simp: shift_weekend_def Let_def split: if_splits)
  then have r: "valid_date cd \<and> 0 \<le> weekday cd \<and> weekday cd < 5
    \<and> toordinal cd = toordinal n + (if weekday n = 5 then 2 else if weekday n = 6 then 1 else 0)"
  proof cases
    case sat
    from date_add_Inr [OF sat(2)] have cd: "valid_date cd" "toordinal cd = toordinal n + 2"
      by simp_all
    have "(t + 6) mod 7 = 5 \<Longrightarrow> (t + 2 + 6) mod 7 = 0" for t :: int by presburger
    with sat(1) have "weekday cd = 0" unfolding weekday_def cd(2) by simp
    with cd sat(1) show ?thesis by simp
  next
    case sun
    from date_add_Inr [OF sun(2)] have cd: "valid_date cd" "toordinal cd = toordinal n + 1"
      by simp_all
    have "(t + 6) mod 7 = 6 \<Longrightarrow> (t + 1 + 6) mod 7 = 0" for t :: int by presburger
    with sun(1) have "weekday cd = 0" unfolding weekday_def cd(2) by simp
    with cd sun(1) show ?thesis by simp
  next
    case wk
    with assms(2) wd show ?thesis by simp
  qed
  then show "valid_date cd" "0 \<le> weekday cd" "weekday cd < 5"
    "toordinal cd = toordinal n + (if weekday n = 5 then 2 else if weekday n = 6 then 1 else 0)"
    by simp_all
  with assms(2) show "date_le n cd" by (simp add: date_le_iff)
qed

lemma upcoming_loop_mem:
  assumes "upcoming_loop pad today horizon rs acc = Inr res"
  shows "c \<in> set res \<longleftrightarrow> c \<in> set acc \<or>
     (\<exists>r\<in>set rs. \<exists>b n cd. birthday r = Some b \<and> next_occurrence today b = Inr n
        \<and> date_le today n \<and> date_le n horizon \<and> shift_weekend n = Inr cd
        \<and> c = \<lparr>cname = name r, congratulation_date = strftime_Ymd pad cd\<rparr>)"
  using assms
proof (induction rs arbitrary: acc)
  case Nil
  then show ?case by simp
next
  case (Cons r rs)
  show ?case
  proof (cases "birthday r")
    case None
    with Cons.prems have "upcoming_loop pad today horizon rs acc = Inr res" by simp
    from Cons.IH [OF this] None show ?thesis by auto
  next
    case (Some b)
    with Cons.prems obtain n where n: "next_occurrence today b = Inr n"
      by (auto split: sum.splits)
    show ?thesis
    proof (cases "date_le today n \<and> date_le n horizon")
      case False
      with Cons.prems Some n have "upcoming_loop pad today horizon rs acc = Inr res" by auto
      from Cons.IH [OF this] Some n False show ?thesis by auto
    next
      case True
      with Cons.prems Some n obtain cd where cd: "shift_weekend n = Inr cd"
        by (auto split: sum.splits)
      with Cons.prems Some n True
      have "upcoming_loop pad today horizon rs
         (acc @ [\<lparr>cname = name r, congratulation_date = strftime_Ymd pad cd\<rparr>]) = Inr res"
        by auto
      from Cons.IH [OF this] Some n True cd show ?thesis by auto
    qed
  qed
qed

lemma upcoming_loop_ok:
  assumes "upcoming_loop pad today horizon rs acc = Inr res" "r \<in> set rs" "birthday r = Some b"
  shows "\<exists>n. next_occurrence today b = Inr n
    \<and> (date_le today n \<and> date_le n horizon \<longrightarrow> (\<exists>cd. shift_weekend n = Inr cd))"
  using assms
proof (induction rs arbitrary: acc)
  case Nil
  then show ?case by simp
next
  case (Cons x rs)
  show ?case
  proof (cases "x = r")
    case True
    with Cons.prems show ?thesis by (auto split: sum.splits if_splits)
  next
    case False
    with Cons.prems have "r \<in> set rs" by simp
    moreover from Cons.prems(1) obtain acc' where "upcoming_loop pad today horizon rs acc' = Inr res"
      by (auto split: option.splits sum.splits if_splits)
    ultimately show ?thesis using Cons.IH Cons.prems(3) by blast
  qed
qed

lemma book_ok_unique:
  assumes "book_ok book" "(k, r) \<in> set book" "(k', r') \<in> set book" "name r = name r'"
  shows "r = r'"
proof -
  from assms(1) have d: "distinct (map fst book)"
    and nm: "\<forall>kv\<in>set book. name (snd kv) = fst kv"
    by (simp_all add: book_ok_def list_all_iff)
  from nm assms(2,3) have "name r = k" "name r' = k'" by auto
  with assms(4) have "k = k'" by simp
  with d assms(2,3) show ?thesis by (auto dest: eq_key_imp_eq_value)
qed

lemma get_upcoming_birthdays_Inr:
  assumes "get_upcoming_birthdays pad today book = Inr result"
  obtains horizon res where "date_add today 7 = Inr horizon"
    "upcoming_loop pad today horizon (map snd book) [] = Inr res"
    "result = sort_key sort_key_of res"
  using assms by (auto simp: get_upcoming_birthdays_def split: sum.splits)

lemma upcoming_iff:
  assumes "valid_date today" "book_ok book"
    "get_upcoming_birthdays pad today book = Inr result"
    "(k, r) \<in> set book" "birthday r = Some b"
  shows "\<exists>n. next_occurrence today b = Inr n \<and> valid_date n
    \<and> toordinal today \<le> toordinal n
    \<and> ((\<exists>c\<in>set result. cname c = name r) \<longleftrightarrow> toordinal n \<le> toordinal today + 7)"
proof -
  from assms(3) obtain horizon res where h: "date_add today 7 = Inr horizon"
    and l: "upcoming_loop pad today horizon (map snd book) [] = Inr res"
    and s: "result = sort_key sort_key_of res"
    by (rule get_upcoming_birthdays_Inr)
  from date_add_Inr [OF h] have hv: "valid_date horizon"
    and ho: "toordinal horizon = toordinal today + 7" by simp_all
  from assms(4) have rin: "r \<in> set (map snd book)" by force
  from upcoming_loop_ok [OF l rin assms(5)] obtain n
    where n: "next_occurrence today b = Inr n"
      and sh: "date_le today n \<and> date_le n horizon \<longrightarrow> (\<exists>cd. shift_weekend n = Inr cd)"
    by blast
  note nf = next_occurrence_Inr [OF n]
  have le: "toordinal today \<le> toordinal n"
    using nf(5) nf(1) assms(1) by (simp add: date_le_iff)
  have win: "date_le n horizon \<longleftrightarrow> toordinal n \<le> toordinal today + 7"
    using nf(1) hv ho by (simp add: date_le_iff)
  have "(\<exists>c\<in>set result. cname c = name r) \<longleftrightarrow> toordinal n \<le> toordinal today + 7"
  proof
    assume "\<exists>c\<in>set result. cname c = name r"
    then obtain c where c: "c \<in> set res" "cname c = name r" unfolding s by auto
    from c(1) upcoming_loop_mem [OF l, of c]
    have "\<exists>r'\<in>set (map snd book). \<exists>b' n' cd. birthday r' = Some b'
        \<and> next_occurrence today b' = Inr n' \<and> date_le today n' \<and> date_le n' horizon
        \<and> shift_weekend n' = Inr cd
        \<and> c = \<lparr>cname = name r', congratulation_date = strftime_Ymd pad cd\<rparr>"
      by simp
    then obtain r' b' n' cd
      where r': "r' \<in> set (map snd book)" "birthday r' = Some b'"
        "next_occurrence today b' = Inr n'" "date_le n' horizon"
        "c = \<lparr>cname = name r', congratulation_date = strftime_Ymd pad cd\<rparr>"
      by blast
    from r'(1) obtain k' where "(k', r') \<in> set book" by auto
    moreover from c(2) r'(5) have "name r = name r'" by simp
    ultimately have "r = r'" using assms(2,4) by (blast intro: book_ok_unique)
    with r' assms(5) n have "n' = n" by simp
    with r'(4) win show "toordinal n \<le> toordinal today + 7" by simp
  next
    assume "toordinal n \<le> toordinal today + 7"
    with win nf(5) sh obtain cd where cd: "shift_weekend n = Inr cd" "date_le n horizon"
      by blast
    let ?c = "\<lparr>cname = name r, congratulation_date = strftime_Ymd pad cd\<rparr>"
    have "?c \<in> set res"
      unfolding upcoming_loop_mem [OF l] using rin assms(5) n nf(5) cd by blast
    then show "\<exists>c\<in>set result. cname c = name r" unfolding s by force
  qed
  with n nf(1) le show ?thesis by blast
qed

subsection \<open>The window of \<^verbatim>\<open>get_upcoming_birthdays\<close>\<close>

text \<open>
  C1 (as amended). For a date \<open>today\<close> and a book whose call returns, a contact with a
  birthday is in the result exactly when its next occurrence \<open>n\<close> satisfies
  \<open>today \<le> n \<le> today + 7 days\<close>: the horizon of the code is \<^verbatim>\<open>today + timedelta(days=7)\<close>
  and the comparison includes it, so the window has eight days, not seven.
\<close>

theorem upcoming_window:
  assumes "valid_date today" "book_ok book"
    "get_upcoming_birthdays pad today book = Inr result"
    "(k, r) \<in> set book" "birthday r = Some b"
  shows "\<exists>n. next_occurrence today b = Inr n
    \<and> ((\<exists>c\<in>set result. cname c = name r)
         \<longleftrightarrow> toordinal today \<le> toordinal n \<and> toordinal n \<le> toordinal today + 7)"
  using upcoming_iff [OF assms] by blast

theorem upcoming_window_witness:
  "valid_date \<lparr>year = 2024, month = 6, day = 10\<rparr>
   \<and> book_ok [(''Bob'', \<lparr>name = ''Bob'', phones = [],
        birthday = Some \<lparr>year = 1990, month = 6, day = 14\<rparr>\<rparr>)]
   \<and> get_upcoming_birthdays True \<lparr>year = 2024, month = 6, day = 10\<rparr>
        [(''Bob'', \<lparr>name = ''Bob'', phones = [],
           birthday = Some \<lparr>year = 1990, month = 6, day = 14\<rparr>\<rparr>)]
       = Inr [\<lparr>cname = ''Bob'', congratulation_date = ''2024.06.14''\<rparr>]
   \<and> (\<exists>n. next_occurrence \<lparr>year = 2024, month = 6, day = 10\<rparr>
             \<lparr>year = 1990, month = 6, day = 14\<rparr> = Inr n
        \<and> ((\<exists>c\<in>set [\<lparr>cname = ''Bob'', congratulation_date = ''2024.06.14''\<rparr>].
               cname c = name \<lparr>name = ''Bob'', phones = [],
                 birthday = Some \<lparr>year = 1990, month = 6, day = 14\<rparr>\<rparr>)
            \<longleftrightarrow> toordinal \<lparr>year = 2024, month = 6, day = 10\<rparr> \<le> toordinal n
              \<and> toordinal n \<le> toordinal \<lparr>year = 2024, month = 6, day = 10\<rparr> + 7))"
proof -
  let ?today = "\<lparr>year = 2024, month = 6, day = 10\<rparr>"
  let ?r = "\<lparr>name = ''Bob'', phones = [], birthday = Some \<lparr>year = 1990, month = 6, day = 14\<rparr>\<rparr>"
  have v: "valid_date ?today" by code_simp
  have b: "book_ok [(''Bob'', ?r)]" by code_simp
  have g: "get_upcoming_birthdays True ?today [(''Bob'', ?r)]
      = Inr [\<lparr>cname = ''Bob'', congratulation_date = ''2024.06.14''\<rparr>]" by code_simp
  have m: "(''Bob'', ?r) \<in> set [(''Bob'', ?r)]" by simp
  have bd: "birthday ?r = Some \<lparr>year = 1990, month = 6, day = 14\<rparr>" by simp
  from upcoming_window [OF v b g m bd] v b g show ?thesis by blast
qed

theorem upcoming_window_counterexample:
  "get_upcoming_birthdays True \<lparr>year = 2024, month = 6, day = 10\<rparr>
      [(''Bob'', \<lparr>name = ''Bob'', phones = [],
         birthday = Some \<lparr>year = 1990, month = 6, day = 17\<rparr>\<rparr>)]
     = Inr [\<lparr>cname = ''Bob'', congratulation_date = ''2024.06.17''\<rparr>]
   \<and> next_occurrence \<lparr>year = 2024, month = 6, day = 10\<rparr> \<lparr>year = 1990, month = 6, day = 17\<rparr>
     = Inr \<lparr>year = 2024, month = 6, day = 17\<rparr>
   \<and> \<not> (toordinal \<lparr>year = 2024, month = 6, day = 17\<rparr>
          \<le> toordinal \<lparr>year = 2024, month = 6, day = 10\<rparr> + 6)"
  by code_simp

text \<open>
  C2 (as amended). For a date \<open>today\<close> and a book whose call returns, a contact whose next
  occurrence is exactly 7 days after \<open>today\<close> is in the result, and one whose next occurrence
  is exactly 8 days after \<open>today\<close> is not. With \<open>today\<close> = 2024-06-10, a birthday on 18 June
  of any year is not in the result. When the call raises there is no result: the
  counterexample below has a contact exactly 7 days out in a book whose call raises.
\<close>

theorem upcoming_boundary:
  assumes "valid_date today" "book_ok book"
    "get_upcoming_birthdays pad today book = Inr result"
    "(k, r) \<in> set book" "birthday r = Some b" "next_occurrence today b = Inr n"
  shows "(toordinal n = toordinal today + 7 \<longrightarrow> (\<exists>c\<in>set result. cname c = name r))
    \<and> (toordinal n = toordinal today + 8 \<longrightarrow> \<not> (\<exists>c\<in>set result. cname c = name r))
    \<and> (today = \<lparr>year = 2024, month = 6, day = 10\<rparr> \<and> month b = 6 \<and> day b = 18
         \<longrightarrow> \<not> (\<exists>c\<in>set result. cname c = name r))"
proof -
  from upcoming_iff [OF assms(1-5)] assms(6)
  have iff: "(\<exists>c\<in>set result. cname c = name r) \<longleftrightarrow> toordinal n \<le> toordinal today + 7"
    by auto
  have "toordinal n = toordinal today + 8"
    if t: "today = \<lparr>year = 2024, month = 6, day = 10\<rparr>" and b: "month b = 6" "day b = 18"
  proof -
    have "days_in_month 2024 6 = 30" by code_simp
    with assms(6) t b have "n = \<lparr>year = 2024, month = 6, day = 18\<rparr>"
      by (simp add: next_occurrence_def replace_year_def date_new_def date_lt_def date_key_def)
    moreover have "toordinal \<lparr>year = 2024, month = 6, day = 18\<rparr>
        = toordinal \<lparr>year = 2024, month = 6, day = 10\<rparr> + 8" by code_simp
    ultimately show ?thesis using t by simp
  qed
  with iff show ?thesis by auto
qed

theorem upcoming_boundary_witness:
  "valid_date \<lparr>year = 2024, month = 6, day = 10\<rparr>
   \<and> book_ok
        [(''Bob'', \<lparr>name = ''Bob'', phones = [],
            birthday = Some \<lparr>year = 1990, month = 6, day = 17\<rparr>\<rparr>),
         (''Cy'', \<lparr>name = ''Cy'', phones = [],
            birthday = Some \<lparr>year = 1990, month = 6, day = 18\<rparr>\<rparr>)]
   \<and> get_upcoming_birthdays True \<lparr>year = 2024, month = 6, day = 10\<rparr>
        [(''Bob'', \<lparr>name = ''Bob'', phones = [],
            birthday = Some \<lparr>year = 1990, month = 6, day = 17\<rparr>\<rparr>),
         (''Cy'', \<lparr>name = ''Cy'', phones = [],
            birthday = Some \<lparr>year = 1990, month = 6, day = 18\<rparr>\<rparr>)]
       = Inr [\<lparr>cname = ''Bob'', congratulation_date = ''2024.06.17''\<rparr>]
   \<and> next_occurrence \<lparr>year = 2024, month = 6, day = 10\<rparr> \<lparr>year = 1990, month = 6, day = 17\<rparr>
       = Inr \<lparr>year = 2024, month = 6, day = 17\<rparr>
   \<and> toordinal \<lparr>year = 2024, month = 6, day = 17\<rparr>
       = toordinal \<lparr>year = 2024, month = 6, day = 10\<rparr> + 7
   \<and> (\<exists>c\<in>set [\<lparr>cname = ''Bob'', congratulation_date = ''2024.06.17''\<rparr>]. cname c = ''Bob'')
   \<and> next_occurrence \<lparr>year = 2024, month = 6, day = 10\<rparr> \<lparr>year = 1990, month = 6, day = 18\<rparr>
       = Inr \<lparr>year = 2024, month = 6, day = 18\<rparr>
   \<and> toordinal \<lparr>year = 2024, month = 6, day = 18\<rparr>
       = toordinal \<lparr>year = 2024, month = 6, day = 10\<rparr> + 8
   \<and> \<not> (\<exists>c\<in>set [\<lparr>cname = ''Bob'', congratulation_date = ''2024.06.17''\<rparr>]. cname c = ''Cy'')"
proof -
  let ?today = "\<lparr>year = 2024, month = 6, day = 10\<rparr>"
  let ?bob = "\<lparr>name = ''Bob'', phones = [], birthday = Some \<lparr>year = 1990, month = 6, day = 17\<rparr>\<rparr>"
  let ?cy = "\<lparr>name = ''Cy'', phones = [], birthday = Some \<lparr>year = 1990, month = 6, day = 18\<rparr>\<rparr>"
  let ?book = "[(''Bob'', ?bob), (''Cy'', ?cy)]"
  let ?result = "[\<lparr>cname = ''Bob'', congratulation_date = ''2024.06.17''\<rparr>]"
  have v: "valid_date ?today" by code_simp
  have b: "book_ok ?book" by code_simp
  have g: "get_upcoming_birthdays True ?today ?book = Inr ?result" by code_simp
  have m1: "(''Bob'', ?bob) \<in> set ?book" and m2: "(''Cy'', ?cy) \<in> set ?book" by simp_all
  have d1: "birthday ?bob = Some \<lparr>year = 1990, month = 6, day = 17\<rparr>"
    and d2: "birthday ?cy = Some \<lparr>year = 1990, month = 6, day = 18\<rparr>" by simp_all
  have n1: "next_occurrence ?today \<lparr>year = 1990, month = 6, day = 17\<rparr>
      = Inr \<lparr>year = 2024, month = 6, day = 17\<rparr>" by code_simp
  have o1: "toordinal \<lparr>year = 2024, month = 6, day = 17\<rparr> = toordinal ?today + 7" by code_simp
  have n2: "next_occurrence ?today \<lparr>year = 1990, month = 6, day = 18\<rparr>
      = Inr \<lparr>year = 2024, month = 6, day = 18\<rparr>" by code_simp
  have o2: "toordinal \<lparr>year = 2024, month = 6, day = 18\<rparr> = toordinal ?today + 8" by code_simp
  from upcoming_boundary [OF v b g m1 d1 n1] o1
  have in7: "\<exists>c\<in>set ?result. cname c = ''Bob''" by simp
  from upcoming_boundary [OF v b g m2 d2 n2] o2
  have out8: "\<not> (\<exists>c\<in>set ?result. cname c = ''Cy'')" by simp
  from v b g n1 o1 in7 n2 o2 out8 show ?thesis by blast
qed

theorem upcoming_boundary_counterexample:
  "next_occurrence \<lparr>year = 2023, month = 6, day = 10\<rparr> \<lparr>year = 1990, month = 6, day = 17\<rparr>
     = Inr \<lparr>year = 2023, month = 6, day = 17\<rparr>
   \<and> toordinal \<lparr>year = 2023, month = 6, day = 17\<rparr>
     = toordinal \<lparr>year = 2023, month = 6, day = 10\<rparr> + 7
   \<and> get_upcoming_birthdays True \<lparr>year = 2023, month = 6, day = 10\<rparr>
        [(''Bob'', \<lparr>name = ''Bob'', phones = [],
            birthday = Some \<lparr>year = 1990, month = 6, day = 17\<rparr>\<rparr>),
         (''Eve'', \<lparr>name = ''Eve'', phones = [],
            birthday = Some \<lparr>year = 2000, month = 2, day = 29\<rparr>\<rparr>)]
     = Inl (ValueError ''day is out of range for month'')"
  by code_simp

lemma feb29_raises:
  assumes "\<not> is_leap (year today)" "(k, r) \<in> set book" "birthday r = Some b"
    "month b = 2" "day b = 29"
  shows "\<exists>e. get_upcoming_birthdays pad today book = Inl e"
proof (cases "get_upcoming_birthdays pad today book")
  case (Inr result)
  then obtain horizon res where
    l: "upcoming_loop pad today horizon (map snd book) [] = Inr res"
    by (rule get_upcoming_birthdays_Inr)
  from assms(2) have "r \<in> set (map snd book)" by force
  from upcoming_loop_ok [OF l this assms(3)] obtain n where "next_occurrence today b = Inr n"
    by blast
  with assms(1,4,5) have False
    by (auto simp: next_occurrence_def replace_year_def date_new_def days_in_month_def
        DAYS_IN_MONTH_def split: sum.splits if_splits)
  then show ?thesis ..
qed blast

text \<open>
  C3. A book with a birthday on 29 February, read in a common year: \<^verbatim>\<open>replace(year=...)\<close>
  raises \<^verbatim>\<open>ValueError\<close> and \<^verbatim>\<open>get_upcoming_birthdays\<close> does not return. The lemma holds for
  every such book and date, the theorem runs the code on one of them.
\<close>

theorem feb29_common_year:
  "get_upcoming_birthdays True \<lparr>year = 2023, month = 1, day = 1\<rparr>
     [(''Bob'', \<lparr>name = ''Bob'', phones = [],
        birthday = Some \<lparr>year = 2000, month = 2, day = 29\<rparr>\<rparr>)]
   = Inl (ValueError ''day is out of range for month'')"
  by code_simp

text \<open>
  C6. Every element of the result carries the name of a contact of the book and the text of
  a date \<open>cd\<close> that is the contact's next occurrence \<open>n\<close> moved by 2 days from a Saturday and
  by 1 day from a Sunday: \<open>cd\<close> is a weekday (Monday 0 to Friday 4) and not before \<open>n\<close>.
\<close>

theorem congratulation_on_weekday:
  assumes "get_upcoming_birthdays pad today book = Inr result" "c \<in> set result"
  shows "\<exists>r b n cd. r \<in> snd ` set book \<and> birthday r = Some b
    \<and> next_occurrence today b = Inr n \<and> shift_weekend n = Inr cd
    \<and> c = \<lparr>cname = name r, congratulation_date = strftime_Ymd pad cd\<rparr>
    \<and> valid_date cd \<and> 0 \<le> weekday cd \<and> weekday cd < 5
    \<and> toordinal cd = toordinal n + (if weekday n = 5 then 2 else if weekday n = 6 then 1 else 0)
    \<and> date_le n cd"
proof -
  from assms(1) obtain horizon res where
    l: "upcoming_loop pad today horizon (map snd book) [] = Inr res"
    and s: "result = sort_key sort_key_of res"
    by (rule get_upcoming_birthdays_Inr)
  from assms(2) s have "c \<in> set res" by simp
  with upcoming_loop_mem [OF l, of c]
  have "\<exists>r\<in>set (map snd book). \<exists>b n cd. birthday r = Some b
      \<and> next_occurrence today b = Inr n \<and> date_le today n \<and> date_le n horizon
      \<and> shift_weekend n = Inr cd
      \<and> c = \<lparr>cname = name r, congratulation_date = strftime_Ymd pad cd\<rparr>"
    by simp
  then obtain r b n cd where f: "r \<in> set (map snd book)" "birthday r = Some b"
    "next_occurrence today b = Inr n" "shift_weekend n = Inr cd"
    "c = \<lparr>cname = name r, congratulation_date = strftime_Ymd pad cd\<rparr>"
    by blast
  from f(1) have f1: "r \<in> snd ` set book" by simp
  note sw = shift_weekend_Inr [OF f(4) next_occurrence_Inr(1) [OF f(3)]]
  from f1 f(2-5) sw show ?thesis by blast
qed

theorem congratulation_on_weekday_witness:
  "\<exists>r b n cd. r \<in> snd ` set [(''Al'', \<lparr>name = ''Al'', phones = [],
        birthday = Some \<lparr>year = 1990, month = 6, day = 15\<rparr>\<rparr>)]
    \<and> birthday r = Some b
    \<and> next_occurrence \<lparr>year = 2024, month = 6, day = 10\<rparr> b = Inr n
    \<and> shift_weekend n = Inr cd
    \<and> \<lparr>cname = ''Al'', congratulation_date = ''2024.06.17''\<rparr>
        = \<lparr>cname = name r, congratulation_date = strftime_Ymd True cd\<rparr>
    \<and> valid_date cd \<and> 0 \<le> weekday cd \<and> weekday cd < 5
    \<and> toordinal cd = toordinal n + (if weekday n = 5 then 2 else if weekday n = 6 then 1 else 0)
    \<and> date_le n cd"
proof -
  let ?today = "\<lparr>year = 2024, month = 6, day = 10\<rparr>"
  let ?al = "\<lparr>name = ''Al'', phones = [], birthday = Some \<lparr>year = 1990, month = 6, day = 15\<rparr>\<rparr>"
  have g: "get_upcoming_birthdays True ?today [(''Al'', ?al)]
      = Inr [\<lparr>cname = ''Al'', congratulation_date = ''2024.06.17''\<rparr>]" by code_simp
  have m: "\<lparr>cname = ''Al'', congratulation_date = ''2024.06.17''\<rparr>
      \<in> set [\<lparr>cname = ''Al'', congratulation_date = ''2024.06.17''\<rparr>]" by simp
  from congratulation_on_weekday [OF g m] show ?thesis .
qed

subsection \<open>Command handlers\<close>

lemma dict_set_absent: "k \<notin> fst ` set book \<Longrightarrow> dict_set k v book = book @ [(k, v)]"
  by (induction book) auto

lemma dict_set_last:
  "k \<notin> fst ` set book \<Longrightarrow> dict_set k v' (book @ [(k, v)]) = book @ [(k, v')]"
  by (induction book) auto

lemma find_record_None: "find_record book n = None \<longleftrightarrow> n \<notin> fst ` set book"
  by (simp add: find_record_def map_of_eq_None_iff)

lemma strptime_error: "strptime s = Inl e \<Longrightarrow> \<exists>m. e = ValueError m"
  by (auto simp: strptime_def date_new_def split: option.splits if_splits)

lemma Birthday_error:
  "Birthday s = Inl e \<Longrightarrow> e = ValueError ''Invalid date format. Use DD.MM.YYYY''"
  by (auto simp: Birthday_def split: sum.splits error.splits dest: strptime_error)

lemma add_birthday_func_outcome:
  "fst (add_birthday_func args book) \<in>
     {Inr ''Birthday set.'', Inl (ValueError ''Invalid date format. Use DD.MM.YYYY''),
      Inl (ValueError ''not enough values to unpack (expected at least 2, got 1)''),
      Inl (ValueError ''not enough values to unpack (expected at least 2, got 0)'')}"
proof (cases "(args, book)" rule: add_birthday_func.cases)
  case (1 n bday_str rest bk)
  then show ?thesis
    by (auto simp: Record_add_birthday_def Let_def split: option.splits sum.splits
        dest: Birthday_error)
qed simp_all

text \<open>
  C10. For a name that is not in the book and a date string that \<^verbatim>\<open>Birthday\<close> accepts,
  \<^verbatim>\<open>add_birthday\<close> answers \<^verbatim>\<open>Birthday set.\<close> and leaves the book with a new contact of that
  name, without phones and with that birthday, after the contacts it had. For no arguments
  and no book does it answer \<^verbatim>\<open>Contact not found.\<close>, which is what \<^verbatim>\<open>change_contact\<close>,
  \<^verbatim>\<open>show_phone\<close> and \<^verbatim>\<open>show_birthday\<close> answer for the absent name.
\<close>

theorem add_birthday_absent_name:
  assumes "find_record book n = None" "Birthday bday_str = Inr b"
  shows "add_birthday (n # bday_str # rest) book
      = (Inr ''Birthday set.'', book @ [(n, \<lparr>name = n, phones = [], birthday = Some b\<rparr>)])
    \<and> find_record (snd (add_birthday (n # bday_str # rest) book)) n
      = Some \<lparr>name = n, phones = [], birthday = Some b\<rparr>
    \<and> (\<forall>args bk. fst (add_birthday args bk) \<noteq> Inr ''Contact not found.'')
    \<and> fst (change_contact (n # old_phone # new_phone # rest) book) = Inr ''Contact not found.''
    \<and> fst (show_phone (n # rest) book) = Inr ''Contact not found.''
    \<and> fst (show_birthday pad (n # rest) book) = Inr ''Contact not found.''"
proof -
  from assms(1) have absent: "n \<notin> fst ` set book" by (simp add: find_record_None)
  have run: "add_birthday_func (n # bday_str # rest) book
      = (Inr ''Birthday set.'', book @ [(n, \<lparr>name = n, phones = [], birthday = Some b\<rparr>)])"
    using assms absent
    by (simp add: Record_add_birthday_def Record_init_def add_record_def
        dict_set_absent dict_set_last)
  then have a: "add_birthday (n # bday_str # rest) book
      = (Inr ''Birthday set.'', book @ [(n, \<lparr>name = n, phones = [], birthday = Some b\<rparr>)])"
    by (simp add: add_birthday_def input_error_def)
  have b: "find_record (snd (add_birthday (n # bday_str # rest) book)) n
      = Some \<lparr>name = n, phones = [], birthday = Some b\<rparr>"
  proof -
    from absent have "map_of book n = None" by (simp add: map_of_eq_None_iff)
    then show ?thesis unfolding a by (simp add: find_record_def map_add_def)
  qed
  have c: "fst (add_birthday args bk) \<noteq> Inr ''Contact not found.''" for args bk
  proof -
    obtain out bk' where o: "add_birthday_func args bk = (out, bk')"
      by (cases "add_birthday_func args bk")
    with add_birthday_func_outcome [of args bk] show ?thesis
      by (auto simp: add_birthday_def input_error_def)
  qed
  have d: "fst (change_contact (n # old_phone # new_phone # rest) book) = Inr ''Contact not found.''"
    using assms(1) by (simp add: change_contact_def input_error_def)
  have e: "fst (show_phone (n # rest) book) = Inr ''Contact not found.''"
    using assms(1) by (simp add: show_phone_def input_error_def)
  have f: "fst (show_birthday pad (n # rest) book) = Inr ''Contact not found.''"
    using assms(1) by (simp add: show_birthday_def input_error_def)
  from a b c d e f show ?thesis by blast
qed

theorem add_birthday_absent_name_witness:
  "find_record [] ''Bob'' = None
   \<and> Birthday ''15.06.1990'' = Inr \<lparr>year = 1990, month = 6, day = 15\<rparr>
   \<and> add_birthday [''Bob'', ''15.06.1990''] []
     = (Inr ''Birthday set.'',
        [(''Bob'', \<lparr>name = ''Bob'', phones = [],
           birthday = Some \<lparr>year = 1990, month = 6, day = 15\<rparr>\<rparr>)])
   \<and> fst (show_birthday True [''Bob''] []) = Inr ''Contact not found.''"
proof -
  have h1: "find_record [] ''Bob'' = None" by (simp add: find_record_def)
  have h2: "Birthday ''15.06.1990'' = Inr \<lparr>year = 1990, month = 6, day = 15\<rparr>" by code_simp
  from add_birthday_absent_name [OF h1 h2, of "[]" "''0''" "''1''" True] h1 h2
  show ?thesis by simp
qed

subsection \<open>Digits and their order\<close>

declare decimal.simps [simp del]

lemma append_less_fixed:
  fixes xs ys :: "'a::linorder list"
  assumes "length xs = length ys"
  shows "xs @ us < ys @ vs \<longleftrightarrow> xs < ys \<or> (xs = ys \<and> us < vs)"
  using assms by (induction xs ys rule: list_induct2) auto

lemma append_le_fixed:
  fixes xs ys :: "'a::linorder list"
  assumes "length xs = length ys"
  shows "xs @ us \<le> ys @ vs \<longleftrightarrow> xs < ys \<or> (xs = ys \<and> us \<le> vs)"
  using assms by (induction xs ys rule: list_induct2) auto

lemma digit_char_less:
  fixes a b :: nat
  assumes "a < 10" "b < 10"
  shows "char_of (48 + a) < char_of (48 + b) \<longleftrightarrow> a < b"
    and "char_of (48 + a) = char_of (48 + b) \<longleftrightarrow> a = b"
  using assms by (simp_all add: less_char_def)

lemma decimal_small: "n < 10 \<Longrightarrow> decimal n = [char_of (48 + n)]"
  by (subst decimal.simps) simp

lemma decimal_large: "10 \<le> n \<Longrightarrow> decimal n = decimal (n div 10) @ [char_of (48 + n mod 10)]"
  by (subst decimal.simps) simp

lemma div10_bound: "n < 10 ^ Suc w \<Longrightarrow> n div 10 < 10 ^ w" for n :: nat
  by (simp add: div_less_iff_less_mult)

lemma length_decimal: "0 < w \<Longrightarrow> n < 10 ^ w \<Longrightarrow> length (decimal n) \<le> w"
proof (induction w arbitrary: n rule: nat_induct_non_zero)
  case 1
  then show ?case by (simp add: decimal_small)
next
  case (Suc w)
  show ?case
  proof (cases "n < 10")
    case True
    then show ?thesis by (simp add: decimal_small)
  next
    case False
    have "n div 10 < 10 ^ w" using Suc.prems by (intro div10_bound)
    from Suc.IH [OF this] False show ?thesis by (simp add: decimal_large)
  qed
qed

lemma length_zfill_decimal:
  assumes "0 < w" "n < 10 ^ w"
  shows "length (zfill w (decimal n)) = w"
  using length_decimal [OF assms] by (simp add: zfill_def)

lemma zfill_decimal_step:
  assumes "0 < w" "n < 10 ^ Suc w"
  shows "zfill (Suc w) (decimal n) = zfill w (decimal (n div 10)) @ [char_of (48 + n mod 10)]"
proof (cases "n < 10")
  case True
  from gr0_implies_Suc [OF assms(1)] obtain v where w: "w = Suc v" by blast
  have z: "char_of (48 :: nat) = CHR ''0''" by (rule of_char_eqI [where ?'a = nat]) simp
  from True have "decimal (n div 10) = [CHR ''0'']" by (simp add: decimal_small z)
  then have "zfill w (decimal (n div 10)) = replicate w CHR ''0''"
    unfolding w by (simp add: zfill_def replicate_append_same)
  with True show ?thesis by (simp add: zfill_def decimal_small)
next
  case False
  have "n div 10 < 10 ^ w" using assms(2) by (rule div10_bound)
  from length_decimal [OF assms(1) this] False show ?thesis
    by (simp add: zfill_def decimal_large Suc_diff_le)
qed

lemma less_by_digits:
  fixes a b :: nat
  shows "a < b \<longleftrightarrow> a div 10 < b div 10 \<or> (a div 10 = b div 10 \<and> a mod 10 < b mod 10)"
proof -
  define qa ra qb rb where "qa = a div 10" and "ra = a mod 10" and "qb = b div 10"
    and "rb = b mod 10"
  have a: "a = 10 * qa + ra" and b: "b = 10 * qb + rb" by (simp_all add: qa_def ra_def qb_def rb_def)
  have r: "ra < 10" "rb < 10" by (simp_all add: ra_def rb_def)
  have "10 * qa + ra < 10 * qb + rb \<longleftrightarrow> qa < qb \<or> (qa = qb \<and> ra < rb)"
    using r by linarith
  then show ?thesis unfolding a [symmetric] b [symmetric] unfolding qa_def ra_def qb_def rb_def .
qed

lemma eq_by_digits:
  fixes a b :: nat
  shows "a = b \<longleftrightarrow> a div 10 = b div 10 \<and> a mod 10 = b mod 10"
proof
  assume "a = b"
  then show "a div 10 = b div 10 \<and> a mod 10 = b mod 10" by simp
next
  assume h: "a div 10 = b div 10 \<and> a mod 10 = b mod 10"
  have "a = 10 * (a div 10) + a mod 10" by simp
  also have "\<dots> = 10 * (b div 10) + b mod 10" using h by simp
  also have "\<dots> = b" by simp
  finally show "a = b" .
qed

lemma zfill_decimal_order:
  assumes "0 < w" "a < 10 ^ w" "b < 10 ^ w"
  shows "(zfill w (decimal a) < zfill w (decimal b) \<longleftrightarrow> a < b)
    \<and> (zfill w (decimal a) = zfill w (decimal b) \<longleftrightarrow> a = b)"
  using assms
proof (induction w arbitrary: a b rule: nat_induct_non_zero)
  case 1
  then show ?case by (simp add: zfill_def decimal_small less_char_def)
next
  case (Suc w)
  have a: "a div 10 < 10 ^ w" and b: "b div 10 < 10 ^ w"
    using Suc.prems by (simp_all add: div10_bound)
  from Suc.IH [OF a b]
  have i1: "zfill w (decimal (a div 10)) < zfill w (decimal (b div 10)) \<longleftrightarrow> a div 10 < b div 10"
    and i2: "zfill w (decimal (a div 10)) = zfill w (decimal (b div 10)) \<longleftrightarrow> a div 10 = b div 10"
    by simp_all
  have len: "length (zfill w (decimal (a div 10))) = length (zfill w (decimal (b div 10)))"
    using Suc.hyps a b by (simp add: length_zfill_decimal)
  have m: "a mod 10 < 10" "b mod 10 < 10" by simp_all
  note lt = less_by_digits [of a b] and eq = eq_by_digits [of a b]
  note steps = zfill_decimal_step [OF Suc.hyps Suc.prems(1)]
    zfill_decimal_step [OF Suc.hyps Suc.prems(2)]
  have L: "zfill (Suc w) (decimal a) < zfill (Suc w) (decimal b)
      \<longleftrightarrow> a div 10 < b div 10 \<or> (a div 10 = b div 10 \<and> a mod 10 < b mod 10)"
    unfolding steps append_less_fixed [OF len] i1 i2 by (simp add: digit_char_less [OF m])
  have E: "zfill (Suc w) (decimal a) = zfill (Suc w) (decimal b)
      \<longleftrightarrow> a div 10 = b div 10 \<and> a mod 10 = b mod 10"
    unfolding steps by (simp add: i2 digit_char_less [OF m])
  show ?case unfolding L E using lt eq by blast
qed


lemma length_decimal_ge: "10 ^ w \<le> n \<Longrightarrow> w < length (decimal n)"
proof (induction w arbitrary: n)
  case 0
  then show ?case by (cases "n < 10") (simp_all add: decimal_small decimal_large)
next
  case (Suc w)
  have "(10::nat) \<le> 10 ^ Suc w" by (rule self_le_power) simp_all
  with Suc.prems have "10 \<le> n" by linarith
  moreover from Suc.prems have "10 ^ w \<le> n div 10"
    by (simp add: less_eq_div_iff_mult_less_eq)
  ultimately show ?case using Suc.IH [of "n div 10"] by (simp add: decimal_large)
qed

lemma fmt_Y_zfill:
  assumes "0 \<le> y" "y \<le> 9999" "pad \<or> 1000 \<le> y"
  shows "fmt_Y pad y = zfill 4 (decimal (nat y))"
proof (cases pad)
  case True
  then show ?thesis by (simp add: fmt_Y_def)
next
  case False
  with assms have "10 ^ 3 \<le> nat y" by simp
  from length_decimal_ge [OF this] have "4 \<le> length (decimal (nat y))" by simp
  with False show ?thesis by (simp add: fmt_Y_def zfill_def)
qed

lemma fmt_2d_order:
  assumes "0 \<le> a" "a < 100" "0 \<le> b" "b < 100"
  shows "fmt_2d a < fmt_2d b \<longleftrightarrow> a < b" "fmt_2d a = fmt_2d b \<longleftrightarrow> a = b"
    "length (fmt_2d a) = 2"
proof -
  have a: "nat a < 10 ^ 2" and b: "nat b < 10 ^ 2" using assms by simp_all
  from zfill_decimal_order [OF _ a b] assms
  show "fmt_2d a < fmt_2d b \<longleftrightarrow> a < b" "fmt_2d a = fmt_2d b \<longleftrightarrow> a = b"
    by (auto simp: fmt_2d_def)
  from length_zfill_decimal [OF _ a] show "length (fmt_2d a) = 2" by (simp add: fmt_2d_def)
qed

lemma fmt_Y_order:
  assumes "0 \<le> a" "a \<le> 9999" "0 \<le> b" "b \<le> 9999" "pad \<or> (1000 \<le> a \<and> 1000 \<le> b)"
  shows "fmt_Y pad a < fmt_Y pad b \<longleftrightarrow> a < b" "fmt_Y pad a = fmt_Y pad b \<longleftrightarrow> a = b"
    "length (fmt_Y pad a) = 4"
proof -
  have a: "nat a < 10 ^ 4" and b: "nat b < 10 ^ 4" using assms by simp_all
  have za: "fmt_Y pad a = zfill 4 (decimal (nat a))" and zb: "fmt_Y pad b = zfill 4 (decimal (nat b))"
    using assms by (auto intro: fmt_Y_zfill)
  from zfill_decimal_order [OF _ a b] assms
  show "fmt_Y pad a < fmt_Y pad b \<longleftrightarrow> a < b" "fmt_Y pad a = fmt_Y pad b \<longleftrightarrow> a = b"
    unfolding za zb by auto
  from length_zfill_decimal [OF _ a] show "length (fmt_Y pad a) = 4" unfolding za by simp
qed

lemma valid_date_ranges:
  assumes "valid_date d"
  shows "1 \<le> year d" "year d \<le> 9999" "1 \<le> month d" "month d \<le> 12" "1 \<le> day d" "day d \<le> 31"
proof -
  from assms show y: "1 \<le> year d" "year d \<le> 9999" and m: "1 \<le> month d" "month d \<le> 12"
    and "1 \<le> day d" by (simp_all add: valid_date_def)
  from assms have "day d \<le> days_in_month (year d) (month d)" by (simp add: valid_date_def)
  moreover have "days_in_month (year d) (month d) \<le> 31"
    using m by (rule dim_pos)
  ultimately show "day d \<le> 31" by simp
qed

lemma strftime_Ymd_order:
  assumes "valid_date a" "valid_date b" "pad \<or> (1000 \<le> year a \<and> 1000 \<le> year b)"
  shows "strftime_Ymd pad a < strftime_Ymd pad b \<longleftrightarrow> date_key a < date_key b"
    and "strftime_Ymd pad a = strftime_Ymd pad b \<longleftrightarrow> date_key a = date_key b"
proof -
  note ra = valid_date_ranges [OF assms(1)] and rb = valid_date_ranges [OF assms(2)]
  have y: "fmt_Y pad (year a) < fmt_Y pad (year b) \<longleftrightarrow> year a < year b"
    "fmt_Y pad (year a) = fmt_Y pad (year b) \<longleftrightarrow> year a = year b"
    "length (fmt_Y pad (year a)) = length (fmt_Y pad (year b))"
    using ra rb assms(3) fmt_Y_order [of "year a" "year b" pad] fmt_Y_order(3) [of "year b" "year a" pad]
    by auto
  have m: "fmt_2d (month a) < fmt_2d (month b) \<longleftrightarrow> month a < month b"
    "fmt_2d (month a) = fmt_2d (month b) \<longleftrightarrow> month a = month b"
    "length (fmt_2d (month a)) = length (fmt_2d (month b))"
    using ra rb fmt_2d_order [of "month a" "month b"] fmt_2d_order(3) [of "month b" "month a"]
    by auto
  have d: "fmt_2d (day a) < fmt_2d (day b) \<longleftrightarrow> day a < day b"
    "fmt_2d (day a) = fmt_2d (day b) \<longleftrightarrow> day a = day b"
    using ra rb fmt_2d_order [of "day a" "day b"] by auto
  show "strftime_Ymd pad a < strftime_Ymd pad b \<longleftrightarrow> date_key a < date_key b"
    unfolding strftime_Ymd_def date_key_def
    by (auto simp: append_less_fixed [OF y(3)] append_less_fixed [OF m(3)] y m d)
  show "strftime_Ymd pad a = strftime_Ymd pad b \<longleftrightarrow> date_key a = date_key b"
    unfolding strftime_Ymd_def date_key_def
    using y(3) m(3) by (auto simp: y m d)
qed


subsection \<open>The order of the result\<close>

lemma insort_key_map:
  "insort_key k (f x) (map f xs) = map f (insort_key (\<lambda>x. k (f x)) x xs)"
  by (induction xs) simp_all

lemma sort_key_map: "sort_key k (map f xs) = map f (sort_key (\<lambda>x. k (f x)) xs)"
  by (induction xs) (simp_all add: insort_key_map)

lemma pair_le_transfer:
  fixes a b :: "'a::linorder" and c d :: "'b::linorder" and n m :: "'c::linorder"
  assumes "(a < b) = (c < d)" "(a = b) = (c = d)" "(a, n) \<le> (b, m)"
  shows "(c, n) \<le> (d, m)"
  using assms by (auto simp: less_eq_prod_def less_le)

lemma date_le_year: "date_le a b \<Longrightarrow> year a \<le> year b"
  by (auto simp: date_le_def date_key_def)

lemma upcoming_loop_dates:
  assumes "upcoming_loop pad today horizon rs acc = Inr res"
  shows "\<exists>ds. res = acc @ map (\<lambda>(nm, d). \<lparr>cname = nm, congratulation_date = strftime_Ymd pad d\<rparr>) ds
    \<and> (\<forall>(nm, d)\<in>set ds. valid_date d \<and> year today \<le> year d)"
  using assms
proof (induction rs arbitrary: acc)
  case Nil
  then show ?case by (intro exI [of _ "[]"]) simp
next
  case (Cons r rs)
  show ?case
  proof (cases "birthday r")
    case None
    with Cons.prems have "upcoming_loop pad today horizon rs acc = Inr res" by simp
    from Cons.IH [OF this] show ?thesis .
  next
    case (Some b)
    with Cons.prems obtain n where n: "next_occurrence today b = Inr n"
      by (auto split: sum.splits)
    show ?thesis
    proof (cases "date_le today n \<and> date_le n horizon")
      case False
      with Cons.prems Some n have "upcoming_loop pad today horizon rs acc = Inr res" by auto
      from Cons.IH [OF this] show ?thesis .
    next
      case True
      with Cons.prems Some n obtain cd where cd: "shift_weekend n = Inr cd"
        by (auto split: sum.splits)
      let ?mk = "\<lambda>(nm, d). \<lparr>cname = nm, congratulation_date = strftime_Ymd pad d\<rparr>"
      from Cons.prems Some n True cd
      have "upcoming_loop pad today horizon rs (acc @ [?mk (name r, cd)]) = Inr res"
        by auto
      from Cons.IH [OF this] obtain ds where ds: "res = (acc @ [?mk (name r, cd)]) @ map ?mk ds"
        "\<forall>(nm, d)\<in>set ds. valid_date d \<and> year today \<le> year d" by (elim exE conjE)
      note nf = next_occurrence_Inr [OF n]
      note sw = shift_weekend_Inr [OF cd nf(1)]
      from date_le_year [OF nf(5)] date_le_year [OF sw(5)] have "year today \<le> year cd" by simp
      with sw(1) ds(2)
      have a: "\<forall>(nm, d)\<in>set ((name r, cd) # ds). valid_date d \<and> year today \<le> year d" by simp
      from ds(1) have b: "res = acc @ map ?mk ((name r, cd) # ds)" by simp
      from b a show ?thesis by (intro exI [of _ "(name r, cd) # ds"] conjI)
    qed
  qed
qed

text \<open>
  C7. The result is sorted by the key of the call to \<^verbatim>\<open>sort\<close>, the pair of the text
  \<^verbatim>\<open>congratulation_date\<close> and the name. The text is \<^verbatim>\<open>%Y.%m.%d\<close>, so that when the year is
  printed with four digits (the platform pads it, or the year of \<open>today\<close> is 1000 or later)
  the elements are the texts of dates \<open>ds\<close> that are in the order of the calendar, and those
  of one date are in the order of their names.
\<close>

theorem upcoming_sorted:
  assumes "get_upcoming_birthdays pad today book = Inr result"
  shows "sorted (map sort_key_of result)
    \<and> (pad \<or> 1000 \<le> year today \<longrightarrow>
        (\<exists>ds. result = map (\<lambda>(nm, d). \<lparr>cname = nm, congratulation_date = strftime_Ymd pad d\<rparr>) ds
           \<and> sorted (map (\<lambda>(nm, d). (date_key d, nm)) ds)))"
proof -
  let ?mk = "\<lambda>(nm, d). \<lparr>cname = nm, congratulation_date = strftime_Ymd pad d\<rparr>"
  from assms obtain horizon res where
    l: "upcoming_loop pad today horizon (map snd book) [] = Inr res"
    and s: "result = sort_key sort_key_of res"
    by (rule get_upcoming_birthdays_Inr)
  have first: "sorted (map sort_key_of result)" unfolding s by simp
  have second: "\<exists>ds. result = map ?mk ds \<and> sorted (map (\<lambda>(nm, d). (date_key d, nm)) ds)"
    if four: "pad \<or> 1000 \<le> year today"
  proof -
    from upcoming_loop_dates [OF l] obtain ds where ds0: "res = [] @ map ?mk ds"
      and ok: "\<forall>(nm, d)\<in>set ds. valid_date d \<and> year today \<le> year d" by (elim exE conjE)
    from ds0 have ds: "res = map ?mk ds" by simp
    define ds' where "ds' = sort_key (\<lambda>x. sort_key_of (?mk x)) ds"
    have r: "result = map ?mk ds'" unfolding s ds ds'_def by (rule sort_key_map)
    have "sorted (map (\<lambda>x. sort_key_of (?mk x)) ds')" unfolding ds'_def by (rule sorted_sort_key)
    then have sw: "sorted_wrt (\<lambda>x y. sort_key_of (?mk x) \<le> sort_key_of (?mk y)) ds'"
      by (simp only: sorted_map)
    have "sorted_wrt (\<lambda>x y. (case x of (nm, d) \<Rightarrow> (date_key d, nm))
        \<le> (case y of (nm, d) \<Rightarrow> (date_key d, nm))) ds'"
    proof (rule sorted_wrt_mono_rel [OF _ sw])
      fix x y
      assume x: "x \<in> set ds'" and y: "y \<in> set ds'"
        and le: "sort_key_of (?mk x) \<le> sort_key_of (?mk y)"
      obtain n1 d1 n2 d2 where xy: "x = (n1, d1)" "y = (n2, d2)" by (cases x, cases y)
      from x y ok have v: "valid_date d1" "valid_date d2" "year today \<le> year d1"
        "year today \<le> year d2" unfolding ds'_def xy by auto
      with four have c: "pad \<or> (1000 \<le> year d1 \<and> 1000 \<le> year d2)" by auto
      note e = strftime_Ymd_order [OF v(1,2) c]
      from le have "(strftime_Ymd pad d1, n1) \<le> (strftime_Ymd pad d2, n2)"
        unfolding xy by (simp add: sort_key_of_def)
      from pair_le_transfer [OF e this]
      show "(case x of (nm, d) \<Rightarrow> (date_key d, nm))
          \<le> (case y of (nm, d) \<Rightarrow> (date_key d, nm))"
        unfolding xy by simp
    qed
    then have "sorted (map (\<lambda>(nm, d). (date_key d, nm)) ds')" by (simp only: sorted_map)
    with r show ?thesis by (intro exI [of _ ds'] conjI)
  qed
  from first second show ?thesis by (intro conjI impI)
qed

theorem upcoming_sorted_witness:
  "get_upcoming_birthdays True \<lparr>year = 2024, month = 6, day = 10\<rparr>
      [(''Bob'', \<lparr>name = ''Bob'', phones = [],
          birthday = Some \<lparr>year = 1990, month = 6, day = 17\<rparr>\<rparr>),
       (''Al'', \<lparr>name = ''Al'', phones = [],
          birthday = Some \<lparr>year = 1985, month = 6, day = 15\<rparr>\<rparr>),
       (''Zed'', \<lparr>name = ''Zed'', phones = [],
          birthday = Some \<lparr>year = 2001, month = 6, day = 12\<rparr>\<rparr>)]
     = Inr [\<lparr>cname = ''Zed'', congratulation_date = ''2024.06.12''\<rparr>,
            \<lparr>cname = ''Al'', congratulation_date = ''2024.06.17''\<rparr>,
            \<lparr>cname = ''Bob'', congratulation_date = ''2024.06.17''\<rparr>]
   \<and> sorted (map sort_key_of
        [\<lparr>cname = ''Zed'', congratulation_date = ''2024.06.12''\<rparr>,
         \<lparr>cname = ''Al'', congratulation_date = ''2024.06.17''\<rparr>,
         \<lparr>cname = ''Bob'', congratulation_date = ''2024.06.17''\<rparr>])
   \<and> (\<exists>ds. [\<lparr>cname = ''Zed'', congratulation_date = ''2024.06.12''\<rparr>,
              \<lparr>cname = ''Al'', congratulation_date = ''2024.06.17''\<rparr>,
              \<lparr>cname = ''Bob'', congratulation_date = ''2024.06.17''\<rparr>]
            = map (\<lambda>(nm, d). \<lparr>cname = nm, congratulation_date = strftime_Ymd True d\<rparr>) ds
          \<and> sorted (map (\<lambda>(nm, d). (date_key d, nm)) ds))"
proof -
  have g: "get_upcoming_birthdays True \<lparr>year = 2024, month = 6, day = 10\<rparr>
      [(''Bob'', \<lparr>name = ''Bob'', phones = [],
          birthday = Some \<lparr>year = 1990, month = 6, day = 17\<rparr>\<rparr>),
       (''Al'', \<lparr>name = ''Al'', phones = [],
          birthday = Some \<lparr>year = 1985, month = 6, day = 15\<rparr>\<rparr>),
       (''Zed'', \<lparr>name = ''Zed'', phones = [],
          birthday = Some \<lparr>year = 2001, month = 6, day = 12\<rparr>\<rparr>)]
     = Inr [\<lparr>cname = ''Zed'', congratulation_date = ''2024.06.12''\<rparr>,
            \<lparr>cname = ''Al'', congratulation_date = ''2024.06.17''\<rparr>,
            \<lparr>cname = ''Bob'', congratulation_date = ''2024.06.17''\<rparr>]"
    by code_simp
  from upcoming_sorted [OF g] g show ?thesis by simp
qed

subsection \<open>Phone\<close>




end
